theory Spec2Isabelle
  imports Main "HOL-Library.AList" "HOL-Library.Multiset"
begin

chapter \<open>The program\<close>

section \<open>Strings\<close>

text \<open>
  A JavaScript string is modelled as a \<^typ>\<open>string\<close> of ASCII code units. On such strings
  \<open>toLowerCase\<close> changes the letters \<open>A\<close> to \<open>Z\<close> only, and the class \<open>\s\<close> of a regular
  expression holds tab, line feed, vertical tab, form feed, carriage return and space.
\<close>

definition toLowerCase_char :: "char \<Rightarrow> char" where
  "toLowerCase_char c =
     (let n = (of_char c :: nat) in if 65 \<le> n \<and> n \<le> 90 then char_of (n + 32) else c)"

definition toLowerCase :: "string \<Rightarrow> string" where
  "toLowerCase s = map toLowerCase_char s"

definition is_ws :: "char \<Rightarrow> bool" where
  "is_ws c = (let n = (of_char c :: nat) in (9 \<le> n \<and> n \<le> 13) \<or> n = 32)"

text \<open>
  \<open>s.split(/\s+/)\<close>: the text before the first run of whitespace, then the split of what
  follows the run. Nothing is dropped: a string that starts or ends with whitespace gives
  an empty first or last piece, and the empty string gives one empty piece.
\<close>

function split_ws :: "string \<Rightarrow> string list" where
  "split_ws s =
     (let tok = takeWhile (\<lambda>c. \<not> is_ws c) s;
          rest = dropWhile (\<lambda>c. \<not> is_ws c) s
      in if rest = [] then [tok] else tok # split_ws (dropWhile is_ws rest))"
  by pat_completeness auto

termination
proof (relation "measure length")
  show "wf (measure length)" by simp
next
  fix s :: string and tok rest
  assume rest: "rest = dropWhile (\<lambda>c. \<not> is_ws c) s" and ne: "rest \<noteq> []"
  from ne obtain c cs where cs: "rest = c # cs" by (cases rest) auto
  have "is_ws (hd rest)"
    using ne hd_dropWhile [of "\<lambda>c. \<not> is_ws c" s] by (simp add: rest)
  then have "is_ws c" by (simp add: cs)
  then have "length (dropWhile is_ws rest) \<le> length cs"
    by (simp add: cs length_dropWhile_le)
  moreover have "length rest \<le> length s"
    by (simp add: rest length_dropWhile_le)
  ultimately show "(dropWhile is_ws rest, s) \<in> measure length"
    by (simp add: cs)
qed

declare split_ws.simps [simp del]

section \<open>Values, articles and the engine\<close>

text \<open>
  The values the identifier counter and the \<open>id\<close> field take in this program. \<open>Num n\<close> is
  the number \<open>n\<close>, an integer. \<open>Infinity\<close> is what \<open>parseInt\<close> gives when the digits denote
  a number beyond the greatest double; \<open>NegInfinity\<close> also is what \<open>Math.max()\<close> of no
  arguments gives; \<open>NaN\<close> is what \<open>parseInt\<close> gives on a string with no digits; \<open>Null\<close> is
  what \<open>JSON.stringify\<close> writes for a number that is not finite. The counter counts in
  doubles, which are exact on the integers up to \<open>2^53\<close>; no run increments it that far.
\<close>

datatype jsval = Num int | Infinity | NegInfinity | NaN | Null

text \<open>\<open>===\<close> on these values: \<open>NaN\<close> equals nothing, not even itself.\<close>

definition strict_eq :: "jsval \<Rightarrow> jsval \<Rightarrow> bool" where
  "strict_eq a b = (a = b \<and> a \<noteq> NaN)"

fun ToNumber :: "jsval \<Rightarrow> jsval" where
  "ToNumber Null = Num 0"
| "ToNumber v = v"

fun plus_one :: "jsval \<Rightarrow> jsval" where
  "plus_one (Num n) = Num (n + 1)"
| "plus_one Infinity = Infinity"
| "plus_one NegInfinity = NegInfinity"
| "plus_one NaN = NaN"
| "plus_one Null = Num 1"

text \<open>
  An article. \<open>createdAt\<close> is the string \<open>new Date().toISOString()\<close> writes; it is
  represented by the time value (milliseconds since the epoch) that \<open>new Date(createdAt)\<close>
  reads back from it.
\<close>

record article =
  id' :: jsval
  title :: string
  content :: string
  tags :: "string list"
  createdAt :: int

text \<open>
  The two index objects are created as \<open>{}\<close>: their own properties are kept as a list of
  keys with their buckets, each bucket an array of identifiers; the program looks keys
  up and never enumerates them. \<open>articles_file\<close> is the content of the file
  \<open>ARTICLES_FILE\<close> names: \<open>None\<close> when the file is missing or unreadable, else the array
  of articles its JSON text denotes.
\<close>

type_synonym index_object = "(string \<times> jsval list) list"

record engine =
  articles :: "article list"
  index_keywords :: index_object
  index_tags :: index_object
  nextId :: jsval
  articles_file :: "article list option"

definition MiniSearchEngine :: "article list option \<Rightarrow> engine" where
  "MiniSearchEngine file =
     \<lparr>articles = [], index_keywords = [], index_tags = [], nextId = Num 1,
      articles_file = file\<rparr>"

text \<open>
  What the program throws: a \<open>TypeError\<close>, and the \<open>SyntaxError\<close> of a pattern that the
  regular expression engine rejects. \<open>IllFormedHeap\<close> is the result of the search on a
  heap in which a reference leads to no cell of the kind the program expects; the
  program builds no such heap.
\<close>

datatype failure = TypeError | SyntaxError | IllFormedHeap

section \<open>Property lookup in an index object\<close>

text \<open>
  \<open>obj[key]\<close> on an object created as \<open>{}\<close> finds an own property, or else a property of
  \<open>Object.prototype\<close>; these are its property names.
\<close>

definition Object_prototype_names :: "string list" where
  "Object_prototype_names =
     [''constructor'', ''__defineGetter__'', ''__defineSetter__'', ''hasOwnProperty'',
      ''__lookupGetter__'', ''__lookupSetter__'', ''isPrototypeOf'',
      ''propertyIsEnumerable'', ''toString'', ''valueOf'', ''__proto__'',
      ''toLocaleString'']"

datatype lookup = Undefined | Own "jsval list" | Inherited

definition index_get :: "index_object \<Rightarrow> string \<Rightarrow> lookup" where
  "index_get obj k =
     (case map_of obj k of
        Some b \<Rightarrow> Own b
      | None \<Rightarrow> if k \<in> set Object_prototype_names then Inherited else Undefined)"

section \<open>indexArticle and addArticle\<close>

text \<open>
  One round of the loops of \<open>indexArticle\<close>: a bucket is created when the lookup is falsy,
  then \<open>push\<close> is called on what the lookup finds. An inherited property is truthy and has
  no \<open>push\<close>: the call throws, and the index keeps what was written before.
\<close>

definition push_id :: "index_object \<Rightarrow> string \<Rightarrow> jsval \<Rightarrow> failure + index_object" where
  "push_id obj k i =
     (let obj1 = (if index_get obj k = Undefined then AList.update k [] obj else obj)
      in case index_get obj1 k of
           Own b \<Rightarrow> Inr (AList.update k (b @ [i]) obj1)
         | _ \<Rightarrow> Inl TypeError)"

fun push_ids :: "index_object \<Rightarrow> string list \<Rightarrow> jsval \<Rightarrow> failure option \<times> index_object" where
  "push_ids obj [] i = (None, obj)"
| "push_ids obj (k # ks) i =
     (case push_id obj k i of
        Inl e \<Rightarrow> (Some e, obj)
      | Inr obj' \<Rightarrow> push_ids obj' ks i)"

definition keywords_of :: "article \<Rightarrow> string list" where
  "keywords_of a = split_ws (toLowerCase (title a @ '' '' @ content a))"

definition indexArticle :: "engine \<Rightarrow> article \<Rightarrow> failure option \<times> engine" where
  "indexArticle s a =
     (case push_ids (index_keywords s) (keywords_of a) (id' a) of
        (Some e, kw) \<Rightarrow> (Some e, s\<lparr>index_keywords := kw\<rparr>)
      | (None, kw) \<Rightarrow>
          (case push_ids (index_tags s) (map toLowerCase (tags a)) (id' a) of
             (r, tg) \<Rightarrow> (r, s\<lparr>index_keywords := kw, index_tags := tg\<rparr>)))"

text \<open>
  \<open>JSON.stringify\<close> writes a finite number as it is and any other number as \<open>null\<close>.
  \<open>persistArticles\<close> writes the whole list; a failed write is logged and changes nothing.
\<close>

fun json_number :: "jsval \<Rightarrow> jsval" where
  "json_number (Num n) = Num n"
| "json_number v = Null"

definition JSON_stringify :: "article list \<Rightarrow> article list" where
  "JSON_stringify as = map (\<lambda>a. a\<lparr>id' := json_number (id' a)\<rparr>) as"

definition persistArticles :: "engine \<Rightarrow> bool \<Rightarrow> engine" where
  "persistArticles s write_ok =
     (if write_ok then s\<lparr>articles_file := Some (JSON_stringify (articles s))\<rparr> else s)"

text \<open>
  \<open>addArticle(title, content, tags = [])\<close> at the time \<open>now\<close>. The counter is incremented
  and the article is stored before it is indexed, so both stay when indexing throws.
\<close>

definition addArticle ::
  "engine \<Rightarrow> string \<Rightarrow> string \<Rightarrow> string list option \<Rightarrow> int \<Rightarrow> bool
     \<Rightarrow> (failure + article) \<times> engine" where
  "addArticle s ttl cnt tgs now write_ok =
     (let a = \<lparr>id' = ToNumber (nextId s), title = ttl, content = cnt,
               tags = (case tgs of None \<Rightarrow> [] | Some ts \<Rightarrow> ts), createdAt = now\<rparr>;
          s1 = s\<lparr>nextId := plus_one (ToNumber (nextId s))\<rparr>;
          s2 = s1\<lparr>articles := articles s1 @ [a]\<rparr>
      in case indexArticle s2 a of
           (Some e, s3) \<Rightarrow> (Inl e, s3)
         | (None, s3) \<Rightarrow> (Inr a, persistArticles s3 write_ok))"

section \<open>The handler of POST /articles\<close>

datatype json_body =
    ErrorJson string
  | ErrorMessageJson string failure
  | ArticleJson article

datatype response = Response nat json_body

text \<open>
  \<open>req.body\<close> is what the middleware \<open>express.json()\<close> leaves there. When it has parsed
  a JSON object, \<open>req.body\<close> is this object, \<open>Body title content tags\<close>, each field absent
  (\<open>None\<close>) or present. When it has parsed no body, \<open>req.body\<close> is an object without
  fields, or it is \<open>undefined\<close> (\<open>None\<close>): that depends on the version of express, which
  the program does not fix. The handler first takes the three fields out of \<open>req.body\<close>,
  which throws a \<open>TypeError\<close> when \<open>req.body\<close> is \<open>undefined\<close>. An exception of the handler
  reaches the error handler of the application, which answers 500.
\<close>

datatype request_body = Body "string option" "string option" "string list option"

definition falsy :: "string option \<Rightarrow> bool" where
  "falsy v = (case v of None \<Rightarrow> True | Some str \<Rightarrow> str = [])"

definition post_articles ::
  "engine \<Rightarrow> request_body option \<Rightarrow> int \<Rightarrow> bool \<Rightarrow> response \<times> engine" where
  "post_articles s req_body now write_ok =
     (case req_body of
        None \<Rightarrow> (Response 500 (ErrorMessageJson ''Something went wrong!'' TypeError), s)
      | Some (Body ttl cnt tgs) \<Rightarrow>
          if falsy ttl \<or> falsy cnt
          then (Response 400 (ErrorJson ''Title and content are required''), s)
          else case addArticle s (the ttl) (the cnt) tgs now write_ok of
                 (Inl e, s') \<Rightarrow>
                   (Response 500 (ErrorMessageJson ''Something went wrong!'' e), s')
               | (Inr a, s') \<Rightarrow> (Response 201 (ArticleJson a), s'))"

section \<open>Adding articles\<close>

text \<open>The identifier \<open>i\<close> is in the bucket that \<open>obj\<close> holds under the key \<open>k\<close>.\<close>

definition in_bucket :: "index_object \<Rightarrow> string \<Rightarrow> jsval \<Rightarrow> bool" where
  "in_bucket obj k i = (case map_of obj k of Some b \<Rightarrow> i \<in> set b | None \<Rightarrow> False)"

text \<open>The object literal that \<open>addArticle\<close> builds.\<close>

definition new_article ::
  "engine \<Rightarrow> string \<Rightarrow> string \<Rightarrow> string list option \<Rightarrow> int \<Rightarrow> article" where
  "new_article s ttl cnt tgs now =
     \<lparr>id' = ToNumber (nextId s), title = ttl, content = cnt,
      tags = (case tgs of None \<Rightarrow> [] | Some ts \<Rightarrow> ts), createdAt = now\<rparr>"

text \<open>
  A sequence of calls of \<open>addArticle\<close>, each with its arguments, its time and whether its
  write succeeds. The run stops at the first call that throws.
\<close>

type_synonym add_request = "string \<times> string \<times> string list option \<times> int \<times> bool"

fun add_all :: "engine \<Rightarrow> add_request list \<Rightarrow> (failure + article list) \<times> engine" where
  "add_all s [] = (Inr [], s)"
| "add_all s ((ttl, cnt, tgs, now, w) # rs) =
     (case addArticle s ttl cnt tgs now w of
        (Inl e, s') \<Rightarrow> (Inl e, s')
      | (Inr a, s') \<Rightarrow>
          (case add_all s' rs of
             (Inl e, s'') \<Rightarrow> (Inl e, s'')
           | (Inr as, s'') \<Rightarrow> (Inr (a # as), s'')))"

text \<open>The order of two identifiers that are numbers.\<close>

fun num_less :: "jsval \<Rightarrow> jsval \<Rightarrow> bool" where
  "num_less (Num m) (Num n) = (m < n)"
| "num_less a b = False"

text \<open>The two articles of the scenario of the specification, added to a new engine.\<close>

definition cats_article :: article where
  "cats_article =
     \<lparr>id' = Num 1, title = ''Cats and Dogs'', content = ''Cats are great pets'',
      tags = [''pets'', ''animals''], createdAt = 1000\<rparr>"

definition dog_article :: article where
  "dog_article =
     \<lparr>id' = Num 2, title = ''Dog Training'', content = ''Training your dog'',
      tags = [''pets'', ''training''], createdAt = 2000\<rparr>"

definition store_1 :: engine where
  "store_1 =
     snd (addArticle (MiniSearchEngine None) ''Cats and Dogs'' ''Cats are great pets''
            (Some [''pets'', ''animals'']) 1000 True)"

definition store_2 :: engine where
  "store_2 =
     snd (addArticle store_1 ''Dog Training'' ''Training your dog''
            (Some [''pets'', ''training'']) 2000 True)"

text \<open>A third article, whose title starts with a space, added to the engine of the scenario.\<close>

definition birds_article :: article where
  "birds_article =
     \<lparr>id' = Num 3, title = '' Birds'', content = ''Birds sing'', tags = [],
      createdAt = 3000\<rparr>"

definition store_3 :: engine where
  "store_3 = snd (addArticle store_2 '' Birds'' ''Birds sing'' None 3000 True)"

section \<open>Loading the snapshot\<close>

text \<open>
  \<open>Math.max(...ids)\<close>: every argument is converted to a number; the result is \<open>NaN\<close> when
  one of them is, else the greatest, starting from minus infinity, which is the result for
  no argument at all.
\<close>

fun greater :: "jsval \<Rightarrow> jsval \<Rightarrow> bool" where
  "greater (Num n) (Num h) = (n > h)"
| "greater (Num n) NegInfinity = True"
| "greater Infinity (Num h) = True"
| "greater Infinity NegInfinity = True"
| "greater a b = False"

fun Math_max_from :: "jsval \<Rightarrow> jsval list \<Rightarrow> jsval" where
  "Math_max_from highest [] = highest"
| "Math_max_from highest (x # xs) =
     (let number = ToNumber x
      in if number = NaN then NaN
         else Math_max_from (if greater number highest then number else highest) xs)"

definition Math_max :: "jsval list \<Rightarrow> jsval" where
  "Math_max xs = Math_max_from NegInfinity xs"

text \<open>\<open>this.articles.forEach(article => this.indexArticle(article))\<close>.\<close>

fun index_each :: "engine \<Rightarrow> article list \<Rightarrow> failure option \<times> engine" where
  "index_each s [] = (None, s)"
| "index_each s (a # as) =
     (case indexArticle s a of
        (Some e, s') \<Rightarrow> (Some e, s')
      | (None, s') \<Rightarrow> index_each s' as)"

text \<open>
  \<open>loadArticles\<close>: when the file cannot be read, the exception is caught and nothing
  changes. Else the list is replaced, the counter is set from the greatest identifier,
  and the index is rebuilt; an exception of the rebuild is caught as well and leaves
  what was done before it.
\<close>

definition loadArticles :: "engine \<Rightarrow> engine" where
  "loadArticles s =
     (case articles_file s of
        None \<Rightarrow> s
      | Some data \<Rightarrow>
          (let s1 = s\<lparr>articles := data\<rparr>;
               s2 = s1\<lparr>nextId := plus_one (Math_max (map id' (articles s1)))\<rparr>;
               s3 = s2\<lparr>index_keywords := [], index_tags := []\<rparr>
           in snd (index_each s3 (articles s3))))"

text \<open>Persisting the articles of \<open>s\<close>, then loading the file into a new engine.\<close>

definition persist_then_load :: "engine \<Rightarrow> engine" where
  "persist_then_load s = loadArticles (MiniSearchEngine (articles_file (persistArticles s True)))"

section \<open>Searching\<close>

subsection \<open>Counting the matches of a term\<close>

text \<open>
  \<open>new RegExp(term, 'g')\<close> reads the term as a pattern. A pattern with none of the syntax
  characters below matches exactly its own characters. Every other pattern is read by the
  regular expression engine of the platform, which is no part of the program: the engine
  is a parameter \<open>E\<close> of the embedding. \<open>E pat\<close> is \<open>None\<close> when the engine rejects the
  pattern, which throws a \<open>SyntaxError\<close>, and else the matcher of the pattern. A matcher
  \<open>re\<close> tells for a string \<open>s\<close> and an index \<open>i\<close> whether the pattern matches \<open>s\<close> at \<open>i\<close>:
  \<open>re s i = Some n\<close> when it does, with a match of \<open>n\<close> characters.
\<close>

definition regex_special :: "char \<Rightarrow> bool" where
  "regex_special c =
     (c \<in> set [CHR ''^'', CHR ''$'', CHR 0x5C, CHR ''.'', CHR ''*'', CHR ''+'', CHR ''?'',
               CHR ''('', CHR '')'', CHR ''['', CHR '']'', CHR ''{'', CHR ''}'', CHR ''|''])"

type_synonym matcher = "string \<Rightarrow> nat \<Rightarrow> nat option"

type_synonym regexp_engine = "string \<Rightarrow> matcher option"

text \<open>The pattern \<open>pat\<close> matches the characters of \<open>s\<close> that start at index \<open>i\<close>.\<close>

definition matches_at :: "string \<Rightarrow> string \<Rightarrow> nat \<Rightarrow> bool" where
  "matches_at pat s i = (take (length pat) (drop i s) = pat)"

definition literal :: "string \<Rightarrow> matcher" where
  "literal pat s i = (if matches_at pat s i then Some (length pat) else None)"

definition RegExp :: "regexp_engine \<Rightarrow> string \<Rightarrow> failure + matcher" where
  "RegExp E pat =
     (if list_ex regex_special pat
      then (case E pat of None \<Rightarrow> Inl SyntaxError | Some re \<Rightarrow> Inr re)
      else Inr (literal pat))"

text \<open>
  One call of \<open>exec\<close> of a global pattern: the search starts at \<open>lastIndex\<close>, moves one
  index to the right after each failed attempt, and fails beyond the end of the string.
  The result is the index of the match and its length.
\<close>

function regexp_exec :: "matcher \<Rightarrow> string \<Rightarrow> nat \<Rightarrow> (nat \<times> nat) option" where
  "regexp_exec re s lastIndex =
     (if lastIndex > length s then None
      else case re s lastIndex of
             Some n \<Rightarrow> Some (lastIndex, n)
           | None \<Rightarrow> regexp_exec re s (lastIndex + 1))"
  by pat_completeness auto

termination
  by (relation "measure (\<lambda>(re, s, lastIndex). Suc (length s) - lastIndex)") auto

declare regexp_exec.simps [simp del]

lemma regexp_exec_bounds:
  "regexp_exec re s lastIndex = Some (i, n) \<Longrightarrow> lastIndex \<le> i \<and> i \<le> length s"
proof (induction re s lastIndex rule: regexp_exec.induct)
  case (1 re s lastIndex)
  show ?case
  proof (cases "re s lastIndex")
    case (Some k)
    with "1.prems" show ?thesis
      by (simp add: regexp_exec.simps [of re s lastIndex] split: if_splits)
  next
    case None
    with "1.prems" have le: "\<not> length s < lastIndex"
      and rec: "regexp_exec re s (lastIndex + 1) = Some (i, n)"
      by (simp_all add: regexp_exec.simps [of re s lastIndex] split: if_splits)
    from "1.IH" [OF le None rec] show ?thesis by simp
  qed
qed

text \<open>
  \<open>s.match(re)\<close> for a global pattern: \<open>exec\<close> is called until it fails; each call starts
  where the last match ended, or one index further when the match was empty. The result
  lists the matches, each with its index and its length.
\<close>

function match_all :: "matcher \<Rightarrow> string \<Rightarrow> nat \<Rightarrow> (nat \<times> nat) list" where
  "match_all re s lastIndex =
     (case regexp_exec re s lastIndex of
        None \<Rightarrow> []
      | Some (i, n) \<Rightarrow>
          (let e = i + n
           in (i, n) # match_all re s (if n = 0 then e + 1 else e)))"
  by pat_completeness auto

termination
proof (relation "measure (\<lambda>(re, s, lastIndex). Suc (length s) - lastIndex)")
  show "wf (measure (\<lambda>(re, s, lastIndex). Suc (length s) - lastIndex))" by simp
next
  fix re :: matcher and s :: string and lastIndex x2 i n e
  assume ex: "regexp_exec re s lastIndex = Some x2" and x2: "(i, n) = x2" and e: "e = i + n"
  from ex x2 have "regexp_exec re s lastIndex = Some (i, n)" by simp
  from regexp_exec_bounds [OF this] have bounds: "lastIndex \<le> i" "i \<le> length s" by simp_all
  show "((re, s, if n = 0 then e + 1 else e), re, s, lastIndex)
          \<in> measure (\<lambda>(re, s, lastIndex). Suc (length s) - lastIndex)"
  proof (cases "n = 0")
    case True
    with bounds show ?thesis by (simp add: e)
  next
    case False
    with bounds have "Suc (length s) - (i + n) < Suc (length s) - lastIndex"
      by arith
    with False show ?thesis by (simp add: e)
  qed
qed

declare match_all.simps [simp del]

text \<open>
  \<open>(searchText.match(new RegExp(term.toLowerCase(), 'g')) || []).length\<close>, and the loop of
  \<open>calculateRelevance\<close> that adds these counts up.
\<close>

definition term_count :: "regexp_engine \<Rightarrow> string \<Rightarrow> string \<Rightarrow> failure + nat" where
  "term_count E searchText trm =
     (case RegExp E (toLowerCase trm) of
        Inl e \<Rightarrow> Inl e
      | Inr re \<Rightarrow> Inr (length (match_all re searchText 0)))"

fun add_counts :: "regexp_engine \<Rightarrow> string \<Rightarrow> string list \<Rightarrow> nat \<Rightarrow> failure + nat" where
  "add_counts E searchText [] score = Inr score"
| "add_counts E searchText (trm # ts) score =
     (case term_count E searchText trm of
        Inl e \<Rightarrow> Inl e
      | Inr termCount \<Rightarrow> add_counts E searchText ts (score + termCount))"

definition calculateRelevance :: "regexp_engine \<Rightarrow> article \<Rightarrow> string list \<Rightarrow> failure + nat" where
  "calculateRelevance E a searchTerms =
     add_counts E (toLowerCase (title a @ '' '' @ content a)) searchTerms 0"

subsection \<open>searchArticles\<close>

text \<open>A \<open>Set\<close> keeps its members in the order of insertion, each once.\<close>

definition Set_add :: "jsval list \<Rightarrow> jsval \<Rightarrow> jsval list" where
  "Set_add st v = (if v \<in> set st then st else st @ [v])"

text \<open>
  \<open>[...(obj[term] || [])]\<close>: a missing bucket counts as empty; an inherited property is
  truthy and cannot be spread, which throws.
\<close>

definition spread_or_empty :: "lookup \<Rightarrow> failure + jsval list" where
  "spread_or_empty l =
     (case l of Undefined \<Rightarrow> Inr [] | Own b \<Rightarrow> Inr b | Inherited \<Rightarrow> Inl TypeError)"

fun collect_ids ::
  "index_object \<Rightarrow> index_object \<Rightarrow> string list \<Rightarrow> jsval list \<Rightarrow> failure + jsval list" where
  "collect_ids keywords tgs [] matchedIds = Inr matchedIds"
| "collect_ids keywords tgs (trm # ts) matchedIds =
     (case spread_or_empty (index_get keywords trm) of
        Inl e \<Rightarrow> Inl e
      | Inr keywordMatches \<Rightarrow>
          (case spread_or_empty (index_get tgs trm) of
             Inl e \<Rightarrow> Inl e
           | Inr tagMatches \<Rightarrow>
               collect_ids keywords tgs ts (foldl Set_add matchedIds (keywordMatches @ tagMatches))))"

text \<open>A result of the search: the fields of the article and its score.\<close>

record scored_article = article +
  relevanceScore :: nat

definition with_score :: "article \<Rightarrow> nat \<Rightarrow> scored_article" where
  "with_score a n =
     \<lparr>id' = id' a, title = title a, content = content a, tags = tags a,
      createdAt = createdAt a, relevanceScore = n\<rparr>"

fun score_each :: "regexp_engine \<Rightarrow> article list \<Rightarrow> string list \<Rightarrow> failure + scored_article list" where
  "score_each E [] searchTerms = Inr []"
| "score_each E (a # as) searchTerms =
     (case calculateRelevance E a searchTerms of
        Inl e \<Rightarrow> Inl e
      | Inr n \<Rightarrow>
          (case score_each E as searchTerms of
             Inl e \<Rightarrow> Inl e
           | Inr rs \<Rightarrow> Inr (with_score a n # rs)))"

text \<open>
  \<open>Array.prototype.sort\<close> is stable, and a comparator that orders its arguments
  consistently fixes the result: each element is placed before the first element that it
  does not have to follow.
\<close>

fun insert_by :: "('a \<Rightarrow> 'a \<Rightarrow> int) \<Rightarrow> 'a \<Rightarrow> 'a list \<Rightarrow> 'a list" where
  "insert_by cmp x [] = [x]"
| "insert_by cmp x (y # ys) = (if cmp x y \<le> 0 then x # y # ys else y # insert_by cmp x ys)"

definition Array_sort :: "('a \<Rightarrow> 'a \<Rightarrow> int) \<Rightarrow> 'a list \<Rightarrow> 'a list" where
  "Array_sort cmp xs = foldr (insert_by cmp) xs []"

definition by_relevance :: "scored_article \<Rightarrow> scored_article \<Rightarrow> int" where
  "by_relevance a b = int (relevanceScore b) - int (relevanceScore a)"

definition by_date :: "scored_article \<Rightarrow> scored_article \<Rightarrow> int" where
  "by_date a b = createdAt b - createdAt a"

text \<open>The terms of a query, and the list \<open>results\<close> before it is sorted.\<close>

definition search_terms :: "string \<Rightarrow> string list" where
  "search_terms query = split_ws (toLowerCase query)"

definition matched_results :: "regexp_engine \<Rightarrow> engine \<Rightarrow> string \<Rightarrow> failure + scored_article list" where
  "matched_results E s query =
     (let searchTerms = search_terms query
      in case collect_ids (index_keywords s) (index_tags s) searchTerms [] of
           Inl e \<Rightarrow> Inl e
         | Inr matchedIds \<Rightarrow>
             score_each E (filter (\<lambda>a. id' a \<in> set matchedIds) (articles s)) searchTerms)"

definition searchArticles ::
  "regexp_engine \<Rightarrow> engine \<Rightarrow> string \<Rightarrow> string \<Rightarrow> failure + scored_article list" where
  "searchArticles E s query sortBy =
     (case matched_results E s query of
        Inl e \<Rightarrow> Inl e
      | Inr results \<Rightarrow>
          Inr (if sortBy = ''relevance'' then Array_sort by_relevance results
               else if sortBy = ''date'' then Array_sort by_date results
               else results))"

section \<open>The relevance score\<close>




text \<open>The lowercased text that \<open>calculateRelevance\<close> searches.\<close>

definition searchText_of :: "article \<Rightarrow> string" where
  "searchText_of a = toLowerCase (title a @ '' '' @ content a)"



section \<open>The candidates of a search\<close>

text \<open>The bucket under a key, empty when the object has no such property.\<close>

definition bucket :: "index_object \<Rightarrow> string \<Rightarrow> jsval list" where
  "bucket obj k = (case map_of obj k of Some b \<Rightarrow> b | None \<Rightarrow> [])"

text \<open>
  The states of the engine: a new engine, and the state after \<open>loadArticles\<close>, after
  \<open>addArticle\<close> (whether it returns or throws), and after a change of the file.
\<close>

inductive reachable :: "engine \<Rightarrow> bool" where
  start: "reachable (MiniSearchEngine f)"
| load: "reachable s \<Longrightarrow> reachable (loadArticles s)"
| add: "reachable s \<Longrightarrow> reachable (snd (addArticle s ttl cnt tgs now w))"
| file_change: "reachable s \<Longrightarrow> reachable (s\<lparr>articles_file := f\<rparr>)"

text \<open>Every identifier in a bucket of \<open>obj\<close> is in \<open>I\<close>.\<close>

definition buckets_within :: "index_object \<Rightarrow> jsval set \<Rightarrow> bool" where
  "buckets_within obj I = (\<forall>k b. map_of obj k = Some b \<longrightarrow> set b \<subseteq> I)"

definition index_ids_stored :: "engine \<Rightarrow> bool" where
  "index_ids_stored s \<longleftrightarrow>
     buckets_within (index_keywords s) (id' ` set (articles s)) \<and>
     buckets_within (index_tags s) (id' ` set (articles s))"

section \<open>The handler of GET /articles/:id\<close>

subsection \<open>The Number value of an integer\<close>

text \<open>
  The numbers of the program are doubles. For an integer \<open>m\<close> that is not negative,
  \<open>Number_value m\<close> is the double nearest to \<open>m\<close>, the one with the even significand when
  two are nearest. It is an integer again; \<open>None\<close> stands for infinity. A double holds 53
  significant bits: \<open>m\<close> is cut behind its first 53 bits and rounded at the bit that
  follows.
\<close>

function bit_length :: "int \<Rightarrow> nat" where
  "bit_length n = (if n \<le> 0 then 0 else Suc (bit_length (n div 2)))"
  by pat_completeness auto

termination
  by (relation "measure nat") auto

declare bit_length.simps [simp del]

definition Number_value :: "int \<Rightarrow> int option" where
  "Number_value m =
     (if m < 2 ^ 53 then Some m
      else let sh = bit_length m - 53;
               q = m div 2 ^ sh;
               r = m mod 2 ^ sh;
               q' = (if 2 * r > 2 ^ sh \<or> (2 * r = 2 ^ sh \<and> odd q) then q + 1 else q)
           in if q' * 2 ^ sh \<ge> 2 ^ 1024 then None else Some (q' * 2 ^ sh))"

text \<open>The number with the sign \<open>sign\<close> and the magnitude \<open>m\<close>.\<close>

definition signed :: "int \<Rightarrow> int \<Rightarrow> jsval" where
  "signed sign m =
     (case Number_value m of
        None \<Rightarrow> if sign < 0 then NegInfinity else Infinity
      | Some d \<Rightarrow> Num (sign * d))"

subsection \<open>parseInt\<close>

text \<open>
  \<open>parseInt(string)\<close> with no radix: leading whitespace is skipped, then a sign, then
  \<open>0x\<close> or \<open>0X\<close>, which selects radix 16; the digits that follow, up to the first
  character that is not a digit of the radix, are the number, which is rounded to a
  double. The result is \<open>NaN\<close> when there is no digit.
\<close>

definition digit_value :: "char \<Rightarrow> nat option" where
  "digit_value c =
     (let n = (of_char c :: nat)
      in if 48 \<le> n \<and> n \<le> 57 then Some (n - 48)
         else if 97 \<le> n \<and> n \<le> 122 then Some (n - 87)
         else if 65 \<le> n \<and> n \<le> 90 then Some (n - 55)
         else None)"

definition is_digit :: "nat \<Rightarrow> char \<Rightarrow> bool" where
  "is_digit R c = (case digit_value c of Some d \<Rightarrow> d < R | None \<Rightarrow> False)"

definition value_of :: "nat \<Rightarrow> string \<Rightarrow> int" where
  "value_of R Z =
     foldl (\<lambda>acc c. acc * int R + (case digit_value c of Some d \<Rightarrow> int d | None \<Rightarrow> 0)) 0 Z"

definition parseInt :: "string \<Rightarrow> jsval" where
  "parseInt str =
     (let S = dropWhile is_ws str;
          sign = (if S \<noteq> [] \<and> hd S = CHR ''-'' then - 1 else (1 :: int));
          S1 = (if S \<noteq> [] \<and> (hd S = CHR ''+'' \<or> hd S = CHR ''-'') then tl S else S);
          hex = (take 2 S1 = ''0x'' \<or> take 2 S1 = ''0X'');
          R = (if hex then 16 else 10);
          S2 = (if hex then drop 2 S1 else S1);
          Z = takeWhile (is_digit R) S2
      in if Z = [] then NaN else signed sign (value_of R Z))"

subsection \<open>The string of a number\<close>

text \<open>The decimal digits of an integer that is not negative.\<close>

function dec_digits :: "int \<Rightarrow> string" where
  "dec_digits n =
     (if n < 10 then [char_of (48 + nat n)]
      else dec_digits (n div 10) @ [char_of (48 + nat (n mod 10))])"
  by pat_completeness auto

termination
  by (relation "measure nat") auto

declare dec_digits.simps [simp del]

text \<open>
  The string of a double \<open>x\<close> is written from the decimal number with the fewest
  significant digits that has \<open>x\<close> as its Number value, the nearest to \<open>x\<close> when there are
  several, and the one with the even last digit when two are equally near.
  \<open>shortest_from x nd k\<close> looks for it among the numbers of \<open>k\<close> significant digits and
  more, where \<open>nd\<close> is the number of digits of \<open>x\<close>: \<open>lo\<close> and \<open>hi\<close> are the neighbours of
  \<open>x\<close> with \<open>k\<close> significant digits.
\<close>

function shortest_from :: "int \<Rightarrow> nat \<Rightarrow> nat \<Rightarrow> int" where
  "shortest_from x nd k =
     (if nd \<le> k then x
      else let p = 10 ^ (nd - k);
               lo = (x div p) * p;
               hi = lo + p
           in if Number_value lo = Some x \<and> Number_value hi = Some x
              then (if x - lo < hi - x then lo
                    else if hi - x < x - lo then hi
                    else if even (x div p) then lo else hi)
              else if Number_value lo = Some x then lo
              else if Number_value hi = Some x then hi
              else shortest_from x nd (Suc k))"
  by pat_completeness auto

termination
  by (relation "measure (\<lambda>(x, nd, k). nd - k)") auto

declare shortest_from.simps [simp del]

definition shortest_decimal :: "int \<Rightarrow> int" where
  "shortest_decimal x = shortest_from x (length (dec_digits x)) 1"

text \<open>
  When this decimal number has at most 21 digits, the string holds all of them. A greater
  one is written with an exponent: the first significant digit, a point and the other
  significant digits if there are any, then \<open>e+\<close> and the number of digits that follow
  the first.
\<close>

definition significant :: "string \<Rightarrow> string" where
  "significant ds = rev (dropWhile (\<lambda>c. c = CHR ''0'') (rev ds))"

definition Number_toString :: "int \<Rightarrow> string" where
  "Number_toString x =
     (let ds = dec_digits (shortest_decimal x);
          n = length ds
      in if n \<le> 21 then ds
         else (case significant ds of
                 [] \<Rightarrow> []
               | d # others \<Rightarrow> (if others = [] then [d] else d # CHR ''.'' # others))
              @ ''e+'' @ dec_digits (int n - 1))"

fun ToString :: "jsval \<Rightarrow> string" where
  "ToString (Num n) =
     (if n < 0 then CHR ''-'' # Number_toString (- n) else Number_toString n)"
| "ToString Infinity = ''Infinity''"
| "ToString NegInfinity = ''-Infinity''"
| "ToString NaN = ''NaN''"
| "ToString Null = ''null''"

subsection \<open>getArticle and the handler\<close>

text \<open>
  The handler passes \<open>parseInt(req.params.id)\<close> to \<open>getArticle\<close>, which applies \<open>parseInt\<close>
  to its argument once more: the number is converted to its string, and the string is
  read again.
\<close>

definition getArticle :: "engine \<Rightarrow> jsval \<Rightarrow> article option" where
  "getArticle s v = find (\<lambda>a. strict_eq (id' a) (parseInt (ToString v))) (articles s)"

definition get_article_by_id :: "engine \<Rightarrow> string \<Rightarrow> response" where
  "get_article_by_id s seg =
     (case getArticle s (parseInt seg) of
        None \<Rightarrow> Response 404 (ErrorJson ''Article not found'')
      | Some a \<Rightarrow> Response 200 (ArticleJson a))"

subsection \<open>The parts of a path segment\<close>

text \<open>The characters \<open>0\<close> to \<open>9\<close>.\<close>

definition dec_char :: "char \<Rightarrow> bool" where
  "dec_char c = (48 \<le> (of_char c :: nat) \<and> (of_char c :: nat) \<le> 57)"

text \<open>An optional sign and the factor it stands for; the two prefixes of radix 16.\<close>

definition is_sign :: "string \<Rightarrow> bool" where
  "is_sign sg = (sg = [] \<or> sg = ''+'' \<or> sg = ''-'')"

definition sign_of :: "string \<Rightarrow> int" where
  "sign_of sg = (if sg = ''-'' then - 1 else 1)"

definition hex_prefix :: "string \<Rightarrow> bool" where
  "hex_prefix px = (px = ''0x'' \<or> px = ''0X'')"

text \<open>The string \<open>rest\<close> does not go on with a digit of the radix \<open>R\<close>.\<close>

definition no_digit :: "nat \<Rightarrow> string \<Rightarrow> bool" where
  "no_digit R rest = (rest = [] \<or> \<not> is_digit R (hd rest))"

section \<open>The search on a heap of objects\<close>

text \<open>
  Whether the search changes a stored article depends on which objects and arrays it
  writes to. Here the articles are objects on a heap and \<open>this.articles\<close> is a reference
  to an array of references. A cell is an article object, with its \<open>relevanceScore\<close>
  property when it has one, or an array of references. A reference is an index of the
  heap, and a new cell is placed at its end.
\<close>

type_synonym ref = nat

datatype cell = Object article "nat option" | Array "ref list"

record heap_engine =
  cells :: "cell list"
  this_articles :: ref
  this_keywords :: index_object
  this_tags :: index_object
  this_nextId :: jsval
  this_file :: "article list option"

definition alloc :: "cell list \<Rightarrow> cell \<Rightarrow> ref \<times> cell list" where
  "alloc h c = (length h, h @ [c])"

definition get_object :: "cell list \<Rightarrow> ref \<Rightarrow> (article \<times> nat option) option" where
  "get_object h r =
     (if r < length h then (case h ! r of Object a sc \<Rightarrow> Some (a, sc) | Array rs \<Rightarrow> None)
      else None)"

definition get_array :: "cell list \<Rightarrow> ref \<Rightarrow> ref list option" where
  "get_array h r =
     (if r < length h then (case h ! r of Array rs \<Rightarrow> Some rs | Object a sc \<Rightarrow> None)
      else None)"

text \<open>
  \<open>this.articles.filter(article => matchedIds.has(article.id))\<close> keeps references; the
  array it returns is new. A reference to no object does not occur in the program.
\<close>

fun filter_refs :: "cell list \<Rightarrow> jsval list \<Rightarrow> ref list \<Rightarrow> failure + ref list" where
  "filter_refs h matchedIds [] = Inr []"
| "filter_refs h matchedIds (r # rs) =
     (case get_object h r of
        None \<Rightarrow> Inl IllFormedHeap
      | Some (a, sc) \<Rightarrow>
          (case filter_refs h matchedIds rs of
             Inl e \<Rightarrow> Inl e
           | Inr kept \<Rightarrow> Inr (if id' a \<in> set matchedIds then r # kept else kept)))"

text \<open>
  \<open>.map(article => ({...article, relevanceScore: ...}))\<close> creates one new object for each
  element, with the fields of the article and the score. When the score cannot be
  computed the call throws; the object under construction is then reachable from nowhere
  and is left out of the heap.
\<close>

fun map_scored ::
  "regexp_engine \<Rightarrow> cell list \<Rightarrow> string list \<Rightarrow> ref list \<Rightarrow> (failure + ref list) \<times> cell list" where
  "map_scored E h searchTerms [] = (Inr [], h)"
| "map_scored E h searchTerms (r # rs) =
     (case get_object h r of
        None \<Rightarrow> (Inl IllFormedHeap, h)
      | Some (a, sc) \<Rightarrow>
          (case calculateRelevance E a searchTerms of
             Inl e \<Rightarrow> (Inl e, h)
           | Inr n \<Rightarrow>
               (case alloc h (Object a (Some n)) of
                  (r', h1) \<Rightarrow>
                    (case map_scored E h1 searchTerms rs of
                       (Inl e, h2) \<Rightarrow> (Inl e, h2)
                     | (Inr scored, h2) \<Rightarrow> (Inr (r' # scored), h2)))))"

text \<open>The scored article that a reference of the results leads to.\<close>

definition scored_at :: "cell list \<Rightarrow> ref \<Rightarrow> scored_article option" where
  "scored_at h r =
     (case get_object h r of
        Some (a, Some n) \<Rightarrow> Some (with_score a n)
      | _ \<Rightarrow> None)"

fun scored_all :: "cell list \<Rightarrow> ref list \<Rightarrow> scored_article list option" where
  "scored_all h [] = Some []"
| "scored_all h (r # rs) =
     (case scored_at h r of
        None \<Rightarrow> None
      | Some v \<Rightarrow> (case scored_all h rs of None \<Rightarrow> None | Some vs \<Rightarrow> Some (v # vs)))"

text \<open>
  \<open>results.sort(cmp)\<close> sorts the array in place: the cell of the array is overwritten
  with the sorted references. The comparator reads the objects the references lead to.
\<close>

definition sort_in_place ::
  "cell list \<Rightarrow> ref \<Rightarrow> (scored_article \<Rightarrow> scored_article \<Rightarrow> int) \<Rightarrow> failure + cell list" where
  "sort_in_place h arr cmp =
     (case get_array h arr of
        None \<Rightarrow> Inl IllFormedHeap
      | Some refs \<Rightarrow>
          (case scored_all h refs of
             None \<Rightarrow> Inl IllFormedHeap
           | Some vs \<Rightarrow>
               Inr (h[arr := Array (map fst (Array_sort (\<lambda>x y. cmp (snd x) (snd y))
                                                  (zip refs vs)))])))"

definition searchArticles_heap ::
  "regexp_engine \<Rightarrow> heap_engine \<Rightarrow> string \<Rightarrow> string \<Rightarrow> (failure + ref) \<times> heap_engine" where
  "searchArticles_heap E he query sortBy =
     (let searchTerms = search_terms query
      in case collect_ids (this_keywords he) (this_tags he) searchTerms [] of
           Inl e \<Rightarrow> (Inl e, he)
         | Inr matchedIds \<Rightarrow>
             (case get_array (cells he) (this_articles he) of
                None \<Rightarrow> (Inl IllFormedHeap, he)
              | Some refs \<Rightarrow>
                  (case filter_refs (cells he) matchedIds refs of
                     Inl e \<Rightarrow> (Inl e, he)
                   | Inr kept \<Rightarrow>
                       (case alloc (cells he) (Array kept) of
                          (filtered, h1) \<Rightarrow>
                            (case map_scored E h1 searchTerms kept of
                               (Inl e, h2) \<Rightarrow> (Inl e, he\<lparr>cells := h2\<rparr>)
                             | (Inr scored, h2) \<Rightarrow>
                                 (case alloc h2 (Array scored) of
                                    (results, h3) \<Rightarrow>
                                      (case (if sortBy = ''relevance''
                                             then sort_in_place h3 results by_relevance
                                             else if sortBy = ''date''
                                             then sort_in_place h3 results by_date
                                             else Inr h3) of
                                         Inl e \<Rightarrow> (Inl e, he\<lparr>cells := h3\<rparr>)
                                       | Inr h4 \<Rightarrow> (Inr results, he\<lparr>cells := h4\<rparr>))))))))"

text \<open>The engine of the scenario on a heap: the two article objects and the array.\<close>

definition heap_store_2 :: heap_engine where
  "heap_store_2 =
     \<lparr>cells = [Object cats_article None, Object dog_article None, Array [0, 1]],
      this_articles = 2,
      this_keywords = index_keywords store_2,
      this_tags = index_tags store_2,
      this_nextId = nextId store_2,
      this_file = articles_file store_2\<rparr>"

subsection \<open>What the search leaves alone\<close>

text \<open>The heap \<open>h'\<close> holds every cell of \<open>h\<close>, unchanged, at the same index.\<close>

definition extends :: "cell list \<Rightarrow> cell list \<Rightarrow> bool" where
  "extends h h' = (length h \<le> length h' \<and> take (length h) h' = h)"

subsection \<open>The search on the heap computes the search on values\<close>

definition article_at :: "cell list \<Rightarrow> ref \<Rightarrow> article option" where
  "article_at h r = map_option fst (get_object h r)"

text \<open>\<open>this.articles\<close> is an array, and each of its elements is an article object.\<close>

definition wf_heap :: "heap_engine \<Rightarrow> bool" where
  "wf_heap he =
     (case get_array (cells he) (this_articles he) of
        None \<Rightarrow> False
      | Some refs \<Rightarrow> list_all (\<lambda>r. get_object (cells he) r \<noteq> None) refs)"

definition engine_of :: "heap_engine \<Rightarrow> engine" where
  "engine_of he =
     \<lparr>articles =
        (case get_array (cells he) (this_articles he) of
           None \<Rightarrow> []
         | Some refs \<Rightarrow> List.map_filter (article_at (cells he)) refs),
      index_keywords = this_keywords he, index_tags = this_tags he,
      nextId = this_nextId he, articles_file = this_file he\<rparr>"

text \<open>The list of scored articles that a returned reference stands for.\<close>

definition result_of :: "cell list \<Rightarrow> failure + ref \<Rightarrow> failure + scored_article list" where
  "result_of h r =
     (case r of
        Inl e \<Rightarrow> Inl e
      | Inr res \<Rightarrow>
          (case get_array h res of
             None \<Rightarrow> Inl IllFormedHeap
           | Some refs \<Rightarrow>
               (case scored_all h refs of None \<Rightarrow> Inl IllFormedHeap | Some vs \<Rightarrow> Inr vs)))"

chapter \<open>Properties\<close>

section \<open>Adding articles\<close>

lemma add_cats_article:
  "addArticle (MiniSearchEngine None) ''Cats and Dogs'' ''Cats are great pets''
     (Some [''pets'', ''animals'']) 1000 True = (Inr cats_article, store_1)"
  by code_simp

lemma add_dog_article:
  "addArticle store_1 ''Dog Training'' ''Training your dog''
     (Some [''pets'', ''training'']) 2000 True = (Inr dog_article, store_2)"
  by code_simp

subsection \<open>Buckets only grow\<close>

lemma push_id_in_bucket:
  assumes "push_id obj k i = Inr obj'"
  shows "in_bucket obj' k i"
  using assms
  by (auto simp: push_id_def in_bucket_def index_get_def update_conv Let_def
           split: option.splits if_splits lookup.splits)

lemma push_id_mono:
  assumes "push_id obj k i = Inr obj'" and "in_bucket obj k' j"
  shows "in_bucket obj' k' j"
  using assms
  by (auto simp: push_id_def in_bucket_def index_get_def update_conv Let_def
           split: option.splits if_splits lookup.splits)

lemma push_ids_mono:
  "push_ids obj ks i = (r, obj') \<Longrightarrow> in_bucket obj k' j \<Longrightarrow> in_bucket obj' k' j"
proof (induction ks arbitrary: obj)
  case Nil
  then show ?case by simp
next
  case (Cons k ks)
  show ?case
  proof (cases "push_id obj k i")
    case (Inl e)
    with Cons.prems show ?thesis by simp
  next
    case (Inr obj1)
    with Cons.prems have "push_ids obj1 ks i = (r, obj')" by simp
    moreover have "in_bucket obj1 k' j" using Inr Cons.prems(2) by (rule push_id_mono)
    ultimately show ?thesis by (rule Cons.IH)
  qed
qed

lemma push_ids_in_bucket:
  "push_ids obj ks i = (None, obj') \<Longrightarrow> k \<in> set ks \<Longrightarrow> in_bucket obj' k i"
proof (induction ks arbitrary: obj)
  case Nil
  then show ?case by simp
next
  case (Cons k0 ks)
  show ?case
  proof (cases "push_id obj k0 i")
    case (Inl e)
    with Cons.prems show ?thesis by simp
  next
    case (Inr obj1)
    with Cons.prems have rest: "push_ids obj1 ks i = (None, obj')" by simp
    show ?thesis
    proof (cases "k = k0")
      case True
      have "in_bucket obj1 k i" using Inr True by (simp add: push_id_in_bucket)
      with rest show ?thesis by (rule push_ids_mono)
    next
      case False
      with Cons.prems have "k \<in> set ks" by simp
      with rest show ?thesis by (rule Cons.IH)
    qed
  qed
qed

subsection \<open>What indexing and persisting leave alone\<close>

lemma indexArticle_frame:
  "indexArticle s a = (r, s') \<Longrightarrow>
     articles s' = articles s \<and> nextId s' = nextId s \<and> articles_file s' = articles_file s"
  by (auto simp: indexArticle_def split: prod.splits option.splits)

lemma indexArticle_keywords:
  "indexArticle s a = (None, s') \<Longrightarrow> k \<in> set (keywords_of a) \<Longrightarrow>
     in_bucket (index_keywords s') k (id' a)"
  by (auto simp: indexArticle_def split: prod.splits option.splits dest: push_ids_in_bucket)

lemma indexArticle_tags:
  "indexArticle s a = (None, s') \<Longrightarrow> g \<in> set (tags a) \<Longrightarrow>
     in_bucket (index_tags s') (toLowerCase g) (id' a)"
  by (auto simp: indexArticle_def split: prod.splits option.splits dest!: push_ids_in_bucket)

lemma persistArticles_frame:
  "articles (persistArticles s w) = articles s \<and> nextId (persistArticles s w) = nextId s \<and>
   index_keywords (persistArticles s w) = index_keywords s \<and>
   index_tags (persistArticles s w) = index_tags s"
  by (simp add: persistArticles_def)

lemma addArticle_counter:
  "addArticle s ttl cnt tgs now w = (r, s') \<Longrightarrow>
     nextId s' = plus_one (ToNumber (nextId s)) \<and>
     articles s' = articles s @ [new_article s ttl cnt tgs now]"
  by (auto simp: addArticle_def Let_def new_article_def persistArticles_frame
           split: prod.splits option.splits dest!: indexArticle_frame)

lemma addArticle_returns:
  "addArticle s ttl cnt tgs now w = (Inr a, s') \<Longrightarrow> a = new_article s ttl cnt tgs now"
  by (auto simp: addArticle_def Let_def new_article_def split: prod.splits option.splits)

lemma add_all_ids:
  "nextId s = Num n \<Longrightarrow> add_all s rs = (Inr as, s') \<Longrightarrow>
     map id' as = map (\<lambda>k. Num (n + int k)) [0..<length rs] \<and>
     nextId s' = Num (n + int (length rs))"
proof (induction rs arbitrary: s n as)
  case Nil
  then show ?case by simp
next
  case (Cons r rs)
  obtain ttl cnt tgs now w where r: "r = (ttl, cnt, tgs, now, w)" by (cases r) auto
  from Cons.prems(2) obtain a s1 as' where
    add: "addArticle s ttl cnt tgs now w = (Inr a, s1)" and
    rest: "add_all s1 rs = (Inr as', s')" and as: "as = a # as'"
    by (auto simp: r split: prod.splits sum.splits)
  have n1: "nextId s1 = Num (n + 1)"
    using addArticle_counter [OF add] Cons.prems(1) by simp
  have ida: "id' a = Num n"
    using addArticle_returns [OF add] Cons.prems(1) by (simp add: new_article_def)
  from Cons.IH [OF n1 rest]
  have ih: "map id' as' = map (\<lambda>k. Num (n + 1 + int k)) [0..<length rs]"
    and nx: "nextId s' = Num (n + 1 + int (length rs))" by simp_all
  have "map (\<lambda>k. Num (n + int k)) [0..<length (r # rs)] =
          Num n # map (\<lambda>k. Num (n + 1 + int k)) [0..<length rs]"
    by (simp add: upt_conv_Cons map_Suc_upt [symmetric] del: upt_Suc)
  then show ?case using ih nx ida as by (simp add: add.commute add.left_commute)
qed

section \<open>Claims about adding\<close>

text \<open>
  A request whose body is an object in which the title or the content is empty or absent
  is answered 400 with the error \<open>Title and content are required\<close>; the engine is left
  as it was, so no article is created and the identifier counter is not incremented.
\<close>

lemma post_articles_rejects_empty:
  assumes "falsy ttl \<or> falsy cnt"
  shows "post_articles s (Some (Body ttl cnt tgs)) now w =
           (Response 400 (ErrorJson ''Title and content are required''), s)"
  using assms by (simp add: post_articles_def)

text \<open>
  C5. A request that carries no parsed body has neither a title nor a content, and it is
  not answered 400 when express leaves \<open>req.body\<close> undefined: the handler throws before it
  checks the fields, and the answer is 500. The engine is left as it was. The same
  engine answers 400 to a body that is an object without fields.
\<close>

theorem undefined_body_is_not_rejected:
  "post_articles s None now w =
     (Response 500 (ErrorMessageJson ''Something went wrong!'' TypeError), s) \<and>
   post_articles store_1 None 5 True =
     (Response 500 (ErrorMessageJson ''Something went wrong!'' TypeError), store_1) \<and>
   post_articles store_1 (Some (Body None None None)) 5 True =
     (Response 400 (ErrorJson ''Title and content are required''), store_1) \<and>
   post_articles store_1 (Some (Body (Some '''') (Some ''text'') None)) 5 True =
     (Response 400 (ErrorJson ''Title and content are required''), store_1)"
  by (simp add: post_articles_def falsy_def)

text \<open>
  An add operation that returns the new article has indexed it: every lowercase token
  that whitespace delimits in its title, a space and its content is a key of the keyword
  mapping with the identifier of the article in its bucket, and every tag of the article,
  in lower case, is a key of the tag mapping with the identifier in its bucket.
\<close>

theorem addArticle_indexes_tokens_and_tags:
  assumes "addArticle s ttl cnt tgs now w = (Inr a, s')"
  shows "(\<forall>k \<in> set (split_ws (toLowerCase (ttl @ '' '' @ cnt))).
            in_bucket (index_keywords s') k (id' a)) \<and>
         (\<forall>g \<in> set (tags a). in_bucket (index_tags s') (toLowerCase g) (id' a))"
proof -
  let ?a = "new_article s ttl cnt tgs now"
  let ?s2 = "s\<lparr>nextId := plus_one (ToNumber (nextId s)), articles := articles s @ [?a]\<rparr>"
  from assms obtain s3 where ix: "indexArticle ?s2 ?a = (None, s3)"
    and s': "s' = persistArticles s3 w" and a: "a = ?a"
    by (auto simp: addArticle_def Let_def new_article_def split: prod.splits option.splits)
  have kw: "keywords_of ?a = split_ws (toLowerCase (ttl @ '' '' @ cnt))"
    by (simp add: keywords_of_def new_article_def)
  show ?thesis
    using indexArticle_keywords [OF ix] indexArticle_tags [OF ix] kw
    by (simp add: s' a persistArticles_frame)
qed

theorem addArticle_indexes_tokens_and_tags_witness:
  "addArticle (MiniSearchEngine None) ''Cats and Dogs'' ''Cats are great pets''
     (Some [''pets'', ''animals'']) 1000 True = (Inr cats_article, store_1) \<and>
   in_bucket (index_keywords store_1) ''cats'' (Num 1) \<and>
   in_bucket (index_keywords store_1) ''dogs'' (Num 1) \<and>
   in_bucket (index_tags store_1) ''animals'' (Num 1)"
proof -
  note ix = addArticle_indexes_tokens_and_tags [OF add_cats_article]
  have toks: "split_ws (toLowerCase ''Cats and Dogs Cats are great pets'') =
                [''cats'', ''and'', ''dogs'', ''cats'', ''are'', ''great'', ''pets'']"
    by code_simp
  have low: "toLowerCase ''animals'' = ''animals''" by code_simp
  have "in_bucket (index_tags store_1) (toLowerCase ''animals'') (id' cats_article)"
    using ix by (simp add: cats_article_def)
  then have "in_bucket (index_tags store_1) ''animals'' (Num 1)"
    by (simp add: low cats_article_def)
  moreover have "in_bucket (index_keywords store_1) ''cats'' (Num 1)"
     "in_bucket (index_keywords store_1) ''dogs'' (Num 1)"
    using ix by (simp_all add: toks cats_article_def)
  ultimately show ?thesis using add_cats_article by simp
qed

text \<open>
  C9. In a new engine, a sequence of add operations that all succeed assigns the
  identifiers 1, 2, 3 and so on in this order: they are strictly increasing, and the
  first article receives the identifier 1.
\<close>

theorem fresh_store_ids_increase_from_one:
  assumes "add_all (MiniSearchEngine file) rs = (Inr as, s')"
  shows "map id' as = map (\<lambda>k. Num (int k)) [1..<Suc (length rs)] \<and>
         sorted_wrt num_less (map id' as) \<and>
         (as \<noteq> [] \<longrightarrow> id' (hd as) = Num 1)"
proof -
  have n: "nextId (MiniSearchEngine file) = Num 1" by (simp add: MiniSearchEngine_def)
  have "map id' as = map (\<lambda>k. Num (1 + int k)) [0..<length rs]"
    using add_all_ids [OF n assms] by simp
  also have "\<dots> = map (\<lambda>k. Num (int k)) [1..<Suc (length rs)]"
    by (simp add: map_Suc_upt [symmetric] del: upt_Suc) 
  finally have ids: "map id' as = map (\<lambda>k. Num (int k)) [1..<Suc (length rs)]" .
  have "sorted_wrt num_less (map (\<lambda>k. Num (int k)) [1..<Suc (length rs)])"
    by (simp add: sorted_wrt_map sorted_wrt_upt del: upt_Suc) 
  then have srt: "sorted_wrt num_less (map id' as)" by (simp only: ids)
  have "as \<noteq> [] \<Longrightarrow> id' (hd as) = Num 1"
  proof -
    assume ne: "as \<noteq> []"
    then have "hd (map id' as) = id' (hd as)" by (simp add: hd_map)
    moreover from ne ids have "rs \<noteq> []" by auto
    then have "hd (map (\<lambda>k. Num (int k)) [1..<Suc (length rs)]) = Num 1"
      by (simp add: upt_conv_Cons del: upt_Suc)
    ultimately show ?thesis using ids by simp
  qed
  with ids srt show ?thesis by blast
qed

theorem fresh_store_ids_increase_from_one_witness:
  "add_all (MiniSearchEngine None)
     [(''Cats and Dogs'', ''Cats are great pets'', Some [''pets'', ''animals''], 1000, True),
      (''Dog Training'', ''Training your dog'', Some [''pets'', ''training''], 2000, True)] =
     (Inr [cats_article, dog_article], store_2) \<and>
   map id' [cats_article, dog_article] = [Num 1, Num 2] \<and>
   id' (hd [cats_article, dog_article]) = Num 1"
proof -
  have run: "add_all (MiniSearchEngine None)
     [(''Cats and Dogs'', ''Cats are great pets'', Some [''pets'', ''animals''], 1000, True),
      (''Dog Training'', ''Training your dog'', Some [''pets'', ''training''], 2000, True)] =
     (Inr [cats_article, dog_article], store_2)"
    by (simp add: add_cats_article add_dog_article)
  from fresh_store_ids_increase_from_one [OF run]
  show ?thesis using run by (simp add: upt_conv_Cons)
qed

section \<open>Loading the snapshot\<close>

lemma index_each_frame:
  "index_each s as = (r, s') \<Longrightarrow> articles s' = articles s \<and> nextId s' = nextId s"
proof (induction as arbitrary: s)
  case Nil
  then show ?case by simp
next
  case (Cons a as)
  obtain r1 s1 where ix: "indexArticle s a = (r1, s1)" by (cases "indexArticle s a") auto
  show ?case
  proof (cases r1)
    case None
    with Cons.prems ix have "index_each s1 as = (r, s')" by simp
    from Cons.IH [OF this] indexArticle_frame [OF ix] show ?thesis by simp
  next
    case (Some e)
    with Cons.prems ix indexArticle_frame [OF ix] show ?thesis by auto
  qed
qed

lemma Math_max_from_Num:
  "Math_max_from (Num h) (map Num ns) = Num (Max (insert h (set ns)))"
proof (induction ns arbitrary: h)
  case Nil
  then show ?case by simp
next
  case (Cons n ns)
  have step: "Math_max_from (Num h) (map Num (n # ns)) =
                Math_max_from (Num (max h n)) (map Num ns)"
    by (simp add: max_def)
  have "Max (insert (max h n) (set ns)) = Max (insert h (insert n (set ns)))"
  proof (cases "ns = []")
    case True
    then show ?thesis by simp
  next
    case False
    then show ?thesis by (simp add: max.assoc)
  qed
  then show ?case using Cons.IH [of "max h n"] step by simp
qed

lemma Math_max_Num:
  "ns \<noteq> [] \<Longrightarrow> Math_max (map Num ns) = Num (Max (set ns))"
  by (cases ns) (simp_all add: Math_max_def Math_max_from_Num)

lemma JSON_stringify_finite:
  "\<forall>a \<in> set as. \<exists>n. id' a = Num n \<Longrightarrow> JSON_stringify as = as"
  by (induction as) (auto simp: JSON_stringify_def)

lemma loadArticles_sets:
  "articles_file s = Some data \<Longrightarrow>
     articles (loadArticles s) = data \<and> nextId (loadArticles s) = plus_one (Math_max (map id' data))"
proof -
  assume f: "articles_file s = Some data"
  let ?s3 = "s\<lparr>articles := data, nextId := plus_one (Math_max (map id' data)), index_keywords := [], index_tags := []\<rparr>"
  obtain r s' where e: "index_each ?s3 data = (r, s')" by (cases "index_each ?s3 data") auto
  from index_each_frame [OF e] show ?thesis
    using f e by (simp add: loadArticles_def Let_def)
qed

lemma persist_then_load_roundtrip:
  assumes fin: "\<forall>a \<in> set (articles s). \<exists>n. id' a = Num n" and ne: "articles s \<noteq> []"
  shows "articles (persist_then_load s) = articles s \<and>
         (\<exists>ns. map id' (articles s) = map Num ns \<and>
               nextId (persist_then_load s) = Num (Max (set ns) + 1))"
proof -
  have fl: "articles_file (MiniSearchEngine (articles_file (persistArticles s True))) = Some (articles s)"
    using fin by (simp add: MiniSearchEngine_def persistArticles_def JSON_stringify_finite)
  note ld = loadArticles_sets [OF fl]
  from fin obtain ns where ns: "map id' (articles s) = map Num ns"
  proof -
    have "\<exists>ns. map id' as = map Num ns" if "\<forall>a \<in> set as. \<exists>n. id' a = Num n" for as :: "article list"
      using that
    proof (induction as)
      case Nil
      then show ?case by simp
    next
      case (Cons a as)
      then obtain n ns where "id' a = Num n" "map id' as = map Num ns" by auto
      then have "map id' (a # as) = map Num (n # ns)" by simp
      then show ?case by blast
    qed
    with fin that show ?thesis by blast
  qed
  with ne have "ns \<noteq> []" by auto
  then have "Math_max (map id' (articles s)) = Num (Max (set ns))"
    by (simp add: ns Math_max_Num)
  with ld ns show ?thesis by (auto simp: persist_then_load_def)
qed

text \<open>
  C6. Persisting a store of no articles and loading the snapshot into a new engine leaves
  the identifier counter at minus infinity, not at 1: \<open>Math.max\<close> of no argument is minus
  infinity, and adding 1 changes nothing. The article added next receives minus infinity
  as its identifier.
\<close>

theorem empty_snapshot_counter:
  "articles (persist_then_load (MiniSearchEngine None)) = [] \<and>
   nextId (persist_then_load (MiniSearchEngine None)) = NegInfinity \<and>
   nextId (persist_then_load (MiniSearchEngine None)) \<noteq> Num 1 \<and>
   map_sum (\<lambda>e. e) id' (fst (addArticle (persist_then_load (MiniSearchEngine None))
                              ''Title'' ''Text'' None 3000 True)) = Inr NegInfinity"
  by code_simp

section \<open>The terms of a query\<close>

lemma split_ws_last:
  "dropWhile (\<lambda>c. \<not> is_ws c) s = [] \<Longrightarrow> split_ws s = [takeWhile (\<lambda>c. \<not> is_ws c) s]"
  by (subst split_ws.simps) (simp add: Let_def del: dropWhile_eq_Nil_conv)

lemma split_ws_more:
  "dropWhile (\<lambda>c. \<not> is_ws c) s \<noteq> [] \<Longrightarrow>
     split_ws s = takeWhile (\<lambda>c. \<not> is_ws c) s #
                    split_ws (dropWhile is_ws (dropWhile (\<lambda>c. \<not> is_ws c) s))"
  by (subst split_ws.simps) (simp add: Let_def del: dropWhile_eq_Nil_conv)

lemma split_ws_no_ws:
  "t \<in> set (split_ws s) \<Longrightarrow> c \<in> set t \<Longrightarrow> \<not> is_ws c"
proof (induction s arbitrary: t rule: split_ws.induct)
  case (1 s)
  let ?tok = "takeWhile (\<lambda>c. \<not> is_ws c) s"
  let ?rest = "dropWhile (\<lambda>c. \<not> is_ws c) s"
  have tok: "\<not> is_ws c" if "c \<in> set ?tok" for c
    using that by (auto dest: set_takeWhileD)
  show ?case
  proof (cases "?rest = []")
    case True
    with "1.prems" have "t = ?tok" by (simp only: split_ws_last [OF True] list.set singleton_iff)
    with "1.prems" tok show ?thesis by blast
  next
    case False
    with "1.prems"(1) have "t = ?tok \<or> t \<in> set (split_ws (dropWhile is_ws ?rest))"
      by (simp only: split_ws_more [OF False] set_ConsD list.set insert_iff)
    then show ?thesis
    proof
      assume "t = ?tok"
      with "1.prems" tok show ?thesis by blast
    next
      assume "t \<in> set (split_ws (dropWhile is_ws ?rest))"
      from "1.IH" [OF refl refl False this "1.prems"(2)] show ?thesis .
    qed
  qed
qed

lemma split_ws_empty_piece:
  "[] \<in> set (split_ws s) \<longleftrightarrow> s = [] \<or> is_ws (hd s) \<or> is_ws (last s)"
proof (induction s rule: split_ws.induct)
  case (1 s)
  let ?tok = "takeWhile (\<lambda>c. \<not> is_ws c) s"
  let ?rest = "dropWhile (\<lambda>c. \<not> is_ws c) s"
  let ?next = "dropWhile is_ws ?rest"
  have s: "s = ?tok @ ?rest" by simp
  have tok_empty: "?tok = [] \<longleftrightarrow> s = [] \<or> is_ws (hd s)"
    by (cases s) simp_all
  show ?case
  proof (cases "?rest = []")
    case True
    then have all: "\<forall>c \<in> set s. \<not> is_ws c" by (simp add: dropWhile_eq_Nil_conv)
    have nl: "s \<noteq> [] \<Longrightarrow> \<not> is_ws (last s)" using all last_in_set by blast
    have "[] \<in> set (split_ws s) \<longleftrightarrow> ?tok = []"
      by (simp only: split_ws_last [OF True] list.set singleton_iff insert_iff empty_iff
            simp_thms eq_commute [of "[]"])
    also have "\<dots> \<longleftrightarrow> s = [] \<or> is_ws (hd s)" by (rule tok_empty)
    also have "\<dots> \<longleftrightarrow> s = [] \<or> is_ws (hd s) \<or> is_ws (last s)" using nl by blast
    finally show ?thesis .
  next
    case False
    then obtain c cs where rest: "?rest = c # cs" by (cases ?rest) simp_all
    have split: "[] \<in> set (split_ws s) \<longleftrightarrow> ?tok = [] \<or> [] \<in> set (split_ws ?next)"
      by (simp only: split_ws_more [OF False] list.set insert_iff eq_commute [of "[]"])
    have ih: "[] \<in> set (split_ws ?next) \<longleftrightarrow>
                ?next = [] \<or> is_ws (hd ?next) \<or> is_ws (last ?next)"
      using "1.IH" [OF refl refl False] .
    have hd_next: "\<not> is_ws (hd ?next)" if "?next \<noteq> []"
      using that hd_dropWhile [of is_ws ?rest] by blast
    have last_s: "last s = last ?rest"
    proof -
      have "last (?tok @ ?rest) = last ?rest" using False by (rule last_appendR)
      then show ?thesis by simp
    qed
    have last_rest: "?next = [] \<or> is_ws (last ?next) \<longleftrightarrow> is_ws (last ?rest)"
    proof (cases "?next = []")
      case True
      then have "\<forall>x \<in> set ?rest. is_ws x" by (simp only: dropWhile_eq_Nil_conv)
      moreover have "last ?rest \<in> set ?rest" using False by (rule last_in_set)
      ultimately have "is_ws (last ?rest)" by blast
      with True show ?thesis by blast
    next
      case nonempty: False
      have "last (takeWhile is_ws ?rest @ ?next) = last ?next"
        using nonempty by (rule last_appendR)
      then have "last ?rest = last ?next" by simp
      with nonempty show ?thesis by (simp only: simp_thms)
    qed
    have "[] \<in> set (split_ws s) \<longleftrightarrow> ?tok = [] \<or> ?next = [] \<or> is_ws (last ?next)"
      using split ih hd_next by blast
    also have "\<dots> \<longleftrightarrow> (s = [] \<or> is_ws (hd s)) \<or> is_ws (last ?rest)"
      using tok_empty last_rest by blast
    also have "\<dots> \<longleftrightarrow> s = [] \<or> is_ws (hd s) \<or> is_ws (last s)"
      using last_s by simp
    finally show ?thesis .
  qed
qed

lemma of_char_toLowerCase_char:
  "(of_char (toLowerCase_char c) :: nat) =
     (if 65 \<le> (of_char c :: nat) \<and> (of_char c :: nat) \<le> 90 then of_char c + 32 else of_char c)"
  by (simp add: toLowerCase_char_def Let_def)

lemma toLowerCase_char_fixed:
  "\<not> (65 \<le> (of_char d :: nat) \<and> (of_char d :: nat) \<le> 90) \<Longrightarrow> toLowerCase_char d = d"
  by (auto simp: toLowerCase_char_def Let_def)

lemma toLowerCase_char_idem: "toLowerCase_char (toLowerCase_char c) = toLowerCase_char c"
  by (rule toLowerCase_char_fixed) (simp add: of_char_toLowerCase_char)

lemma is_ws_toLowerCase_char: "is_ws (toLowerCase_char c) = is_ws c"
  by (simp add: is_ws_def Let_def of_char_toLowerCase_char)

lemma regexp_exec_empty: "i \<le> length s \<Longrightarrow> regexp_exec (literal []) s i = Some (i, 0)"
  by (simp add: regexp_exec.simps [of "literal []" s i] literal_def matches_at_def)

lemma match_all_empty:
  "i \<le> length s \<Longrightarrow> match_all (literal []) s i = map (\<lambda>j. (j, 0)) [i..<Suc (length s)]"
proof (induction "length s - i" arbitrary: i)
  case 0
  then have i: "i = length s" by simp
  have "regexp_exec (literal []) s (Suc (length s)) = None"
    by (simp add: regexp_exec.simps [of "literal []" s "Suc (length s)"])
  then have "match_all (literal []) s (Suc (length s)) = []"
    by (simp add: match_all.simps [of "literal []" s "Suc (length s)"])
  then show ?case
    by (simp add: i match_all.simps [of "literal []" s "length s"] regexp_exec_empty)
next
  case (Suc n)
  then have lt: "i < length s" and n: "n = length s - Suc i" by simp_all
  from Suc.hyps(1) [OF n] lt
  have "match_all (literal []) s (Suc i) = map (\<lambda>j. (j, 0)) [Suc i..<Suc (length s)]" by simp
  moreover have "match_all (literal []) s i = (i, 0) # match_all (literal []) s (Suc i)"
    using lt by (simp add: match_all.simps [of "literal []" s i] regexp_exec_empty)
  ultimately show ?case using lt by (simp add: upt_conv_Cons del: upt_Suc)
qed

lemma split_ws_subset:
  "t \<in> set (split_ws s) \<Longrightarrow> set t \<subseteq> set s"
proof (induction s arbitrary: t rule: split_ws.induct)
  case (1 s)
  let ?tok = "takeWhile (\<lambda>c. \<not> is_ws c) s"
  let ?rest = "dropWhile (\<lambda>c. \<not> is_ws c) s"
  have tok: "set ?tok \<subseteq> set s" by (auto dest: set_takeWhileD)
  show ?case
  proof (cases "?rest = []")
    case True
    with "1.prems" have "t = ?tok" by (simp only: split_ws_last [OF True] list.set singleton_iff)
    with tok show ?thesis by simp
  next
    case False
    with "1.prems"(1) have "t = ?tok \<or> t \<in> set (split_ws (dropWhile is_ws ?rest))"
      by (simp only: split_ws_more [OF False] list.set insert_iff)
    then show ?thesis
    proof
      assume "t = ?tok"
      with tok show ?thesis by simp
    next
      assume "t \<in> set (split_ws (dropWhile is_ws ?rest))"
      from "1.IH" [OF refl refl False this]
      have "set t \<subseteq> set (dropWhile is_ws ?rest)" .
      also have "\<dots> \<subseteq> set ?rest" by (auto dest: set_dropWhileD)
      also have "\<dots> \<subseteq> set s" by (auto dest: set_dropWhileD)
      finally show ?thesis .
    qed
  qed
qed

lemma search_terms_lowercase:
  assumes "t \<in> set (search_terms q)" and "c \<in> set t"
  shows "\<not> is_ws c \<and> toLowerCase_char c = c"
proof -
  from assms have "c \<in> set (toLowerCase q)"
    using split_ws_subset [of t "toLowerCase q"] by (auto simp: search_terms_def)
  then obtain d where "c = toLowerCase_char d" by (auto simp: toLowerCase_def)
  then have "toLowerCase_char c = c" by (simp add: toLowerCase_char_idem)
  moreover have "\<not> is_ws c"
    using assms split_ws_no_ws [of t "toLowerCase q" c] by (simp add: search_terms_def)
  ultimately show ?thesis by simp
qed

text \<open>
  The terms of a query hold an empty term exactly when the query is empty or starts or
  ends with whitespace.
\<close>

lemma search_terms_empty_term:
  "[] \<in> set (search_terms q) \<longleftrightarrow> q = [] \<or> is_ws (hd q) \<or> is_ws (last q)"
proof (cases "q = []")
  case True
  then show ?thesis by (simp add: search_terms_def split_ws_empty_piece toLowerCase_def)
next
  case False
  then have "hd (toLowerCase q) = toLowerCase_char (hd q)"
    and "last (toLowerCase q) = toLowerCase_char (last q)"
    by (simp_all add: toLowerCase_def hd_map last_map)
  with False show ?thesis
    by (simp add: search_terms_def split_ws_empty_piece is_ws_toLowerCase_char toLowerCase_def)
qed

text \<open>
  The empty term is a pattern that matches at every index of the searched text, the end
  included: it adds the length of the text plus one to the score.
\<close>

lemma empty_term_count: "term_count E searchText [] = Inr (Suc (length searchText))"
  by (simp add: term_count_def toLowerCase_def RegExp_def match_all_empty del: upt_Suc)

lemma add_counts_shift:
  "add_counts E searchText ts (k + score) =
     (case add_counts E searchText ts score of Inl e \<Rightarrow> Inl e | Inr n \<Rightarrow> Inr (k + n))"
proof (induction ts arbitrary: score)
  case Nil
  then show ?case by simp
next
  case (Cons t ts)
  show ?case
  proof (cases "term_count E searchText t")
    case (Inl e)
    then show ?thesis by simp
  next
    case (Inr c)
    with Cons [of "score + c"] show ?thesis by (simp add: add.assoc)
  qed
qed

lemma empty_term_adds_text_length:
  assumes "calculateRelevance E a ts = Inr n"
  shows "calculateRelevance E a ([] # ts) = Inr (Suc (length (searchText_of a)) + n)"
proof -
  let ?text = "toLowerCase (title a @ '' '' @ content a)"
  have "add_counts E ?text ts (Suc (length ?text) + 0) =
          (case add_counts E ?text ts 0 of Inl e \<Rightarrow> Inl e | Inr n \<Rightarrow> Inr (Suc (length ?text) + n))"
    by (rule add_counts_shift)
  with assms show ?thesis
    by (simp add: calculateRelevance_def empty_term_count searchText_of_def)
qed

text \<open>
  C7. A query with a leading space has an empty first term, and the search does not
  discard it: the term takes part in the collection of candidates and in the score, where
  it is counted once at every index of the searched text. On the engine of the scenario
  the query \<open>dog\<close> with a space before it returns the article 2 with the score 33; the
  trimmed query returns it with the score 2. When a third article is stored whose title
  starts with a space, the empty term is a key of the keyword mapping, and the query with
  the space returns this article as well.
\<close>

theorem empty_token_changes_scores:
  "search_terms '' dog'' = ['''', ''dog''] \<and>
   collect_ids (index_keywords store_2) (index_tags store_2) ['''', ''dog''] [] = Inr [Num 2] \<and>
   calculateRelevance E dog_article ['''', ''dog''] = Inr 33 \<and>
   searchArticles E store_2 '' dog'' ''relevance'' = Inr [with_score dog_article 33] \<and>
   search_terms ''dog'' = [''dog''] \<and>
   searchArticles E store_2 ''dog'' ''relevance'' = Inr [with_score dog_article 2] \<and>
   addArticle store_2 '' Birds'' ''Birds sing'' None 3000 True = (Inr birds_article, store_3) \<and>
   in_bucket (index_keywords store_3) '''' (Num 3) \<and>
   searchArticles E store_3 '' dog'' ''relevance'' =
     Inr [with_score dog_article 33, with_score birds_article 18] \<and>
   searchArticles E store_3 ''dog'' ''relevance'' = Inr [with_score dog_article 2]"
  by code_simp

section \<open>The relevance score\<close>















lemma add_counts_sum:
  "\<forall>t \<in> set ts. RegExp E (toLowerCase t) = Inr (re_of t) \<Longrightarrow>
     add_counts E searchText ts score =
       Inr (score + (\<Sum>t\<leftarrow>ts. length (match_all (re_of t) searchText 0)))"
  by (induction ts arbitrary: score) (simp_all add: term_count_def)


section \<open>The order of the results\<close>

lemma insert_by_insort_key:
  assumes "\<And>x y. cmp x y \<le> 0 \<longleftrightarrow> f x \<le> f y"
  shows "insert_by cmp x ys = insort_key f x ys"
  by (induction ys) (simp_all add: assms)

lemma Array_sort_sort_key:
  assumes "\<And>x y. cmp x y \<le> 0 \<longleftrightarrow> f x \<le> f y"
  shows "Array_sort cmp xs = sort_key f xs"
proof -
  have "insert_by cmp = insort_key f"
    using insert_by_insort_key [of cmp f, OF assms] by (intro ext)
  then show ?thesis by (simp add: Array_sort_def sort_key_def)
qed

lemma Array_sort_determined:
  assumes key: "\<And>x y. cmp x y \<le> 0 \<longleftrightarrow> f x \<le> f y"
    and "mset ys = mset xs"
    and stable: "\<And>k. filter (\<lambda>x. f x = k) ys = filter (\<lambda>x. f x = k) xs"
    and "sorted (map f ys)"
  shows "Array_sort cmp xs = ys"
proof -
  have "filter (\<lambda>x. f k = f x) ys = filter (\<lambda>x. f k = f x) xs" for k
    using stable [of "f k"] by (simp add: eq_commute)
  with assms(2,4) have "sort_key f xs = ys"
    by (intro properties_for_sort_key) simp_all
  then show ?thesis by (simp add: Array_sort_sort_key [of cmp f, OF key])
qed

lemma by_relevance_key:
  "Array_sort by_relevance xs = sort_key (\<lambda>r. - int (relevanceScore r)) xs"
  by (rule Array_sort_sort_key) (simp add: by_relevance_def)

lemma by_date_key:
  "Array_sort by_date xs = sort_key (\<lambda>r. - createdAt r) xs"
  by (rule Array_sort_sort_key) (simp add: by_date_def)

lemma sort_relevance_props:
  "mset (Array_sort by_relevance xs) = mset xs \<and>
   sorted_wrt (\<lambda>a b. relevanceScore a \<ge> relevanceScore b) (Array_sort by_relevance xs) \<and>
   (\<forall>k. filter (\<lambda>r. relevanceScore r = k) (Array_sort by_relevance xs) =
        filter (\<lambda>r. relevanceScore r = k) xs)"
proof -
  let ?f = "\<lambda>r::scored_article. - int (relevanceScore r)"
  have "sorted (map ?f (sort_key ?f xs))" by (rule sorted_sort_key)
  then have "sorted_wrt (\<lambda>a b. relevanceScore a \<ge> relevanceScore b) (sort_key ?f xs)"
    by (simp add: sorted_map)
  moreover have "filter (\<lambda>r. relevanceScore r = k) (sort_key ?f xs) =
                   filter (\<lambda>r. relevanceScore r = k) xs" for k
    using sort_key_stable [of ?f "- int k" xs] by simp
  ultimately show ?thesis by (simp add: by_relevance_key)
qed

lemma sort_date_props:
  "mset (Array_sort by_date xs) = mset xs \<and>
   sorted_wrt (\<lambda>a b. createdAt a \<ge> createdAt b) (Array_sort by_date xs) \<and>
   (\<forall>k. filter (\<lambda>r. createdAt r = k) (Array_sort by_date xs) =
        filter (\<lambda>r. createdAt r = k) xs)"
proof -
  let ?f = "\<lambda>r::scored_article. - createdAt r"
  have "sorted (map ?f (sort_key ?f xs))" by (rule sorted_sort_key)
  then have "sorted_wrt (\<lambda>a b. createdAt a \<ge> createdAt b) (sort_key ?f xs)"
    by (simp add: sorted_map)
  moreover have "filter (\<lambda>r. createdAt r = k) (sort_key ?f xs) =
                   filter (\<lambda>r. createdAt r = k) xs" for k
    using sort_key_stable [of ?f "- k" xs] by simp
  ultimately show ?thesis by (simp add: by_date_key)
qed

lemma truncate_with_score: "article.truncate (with_score a n) = a"
  by (simp add: with_score_def article.truncate_def)

lemma score_each_Inr:
  "score_each E as searchTerms = Inr rs \<Longrightarrow>
     map article.truncate rs = as \<and>
     (\<forall>r \<in> set rs. calculateRelevance E (article.truncate r) searchTerms = Inr (relevanceScore r))"
proof (induction as arbitrary: rs)
  case Nil
  then show ?case by simp
next
  case (Cons a as)
  from Cons.prems obtain n rs' where n: "calculateRelevance E a searchTerms = Inr n"
    and rs': "score_each E as searchTerms = Inr rs'" and rs: "rs = with_score a n # rs'"
    by (auto split: sum.splits)
  from Cons.IH [OF rs'] n show ?case
    by (simp add: rs truncate_with_score) (simp add: with_score_def)
qed

lemma matched_results_Inr:
  "matched_results E s q = Inr results \<Longrightarrow>
     \<exists>matchedIds. collect_ids (index_keywords s) (index_tags s) (search_terms q) [] = Inr matchedIds \<and>
       map article.truncate results = filter (\<lambda>a. id' a \<in> set matchedIds) (articles s) \<and>
       (\<forall>r \<in> set results.
          calculateRelevance E (article.truncate r) (search_terms q) = Inr (relevanceScore r))"
  by (auto simp: matched_results_def Let_def split: sum.splits dest!: score_each_Inr)

lemma searchArticles_Inr:
  "searchArticles E s q sortBy = Inr rs \<Longrightarrow>
     \<exists>results. matched_results E s q = Inr results \<and>
       rs = (if sortBy = ''relevance'' then Array_sort by_relevance results
             else if sortBy = ''date'' then Array_sort by_date results
             else results)"
  by (auto simp: searchArticles_def split: sum.splits)

text \<open>
  C4. The list that the search returns holds the scored candidates, each as often as the
  candidate list does. For \<open>sortBy\<close> equal to \<open>relevance\<close> it is in descending order of the
  score, and results of equal score keep their order; for \<open>date\<close> it is in descending
  order of the time of creation, equal times keeping their order; for any other value it
  is the candidate list itself, which is in the order of the store.
\<close>

theorem search_result_order:
  assumes "searchArticles E s q sortBy = Inr rs"
  shows "\<exists>results matchedIds.
           matched_results E s q = Inr results \<and>
           collect_ids (index_keywords s) (index_tags s) (search_terms q) [] = Inr matchedIds \<and>
           map article.truncate results = filter (\<lambda>a. id' a \<in> set matchedIds) (articles s) \<and>
           mset rs = mset results \<and>
           (sortBy = ''relevance'' \<longrightarrow>
              sorted_wrt (\<lambda>a b. relevanceScore a \<ge> relevanceScore b) rs \<and>
              (\<forall>k. filter (\<lambda>r. relevanceScore r = k) rs =
                   filter (\<lambda>r. relevanceScore r = k) results)) \<and>
           (sortBy = ''date'' \<longrightarrow>
              sorted_wrt (\<lambda>a b. createdAt a \<ge> createdAt b) rs \<and>
              (\<forall>k. filter (\<lambda>r. createdAt r = k) rs = filter (\<lambda>r. createdAt r = k) results)) \<and>
           (sortBy \<noteq> ''relevance'' \<and> sortBy \<noteq> ''date'' \<longrightarrow> rs = results)"
proof -
  from searchArticles_Inr [OF assms] obtain results where
    res: "matched_results E s q = Inr results" and
    rs: "rs = (if sortBy = ''relevance'' then Array_sort by_relevance results
               else if sortBy = ''date'' then Array_sort by_date results
               else results)" by blast
  from matched_results_Inr [OF res] obtain matchedIds where
    ids: "collect_ids (index_keywords s) (index_tags s) (search_terms q) [] = Inr matchedIds" and
    flt: "map article.truncate results = filter (\<lambda>a. id' a \<in> set matchedIds) (articles s)"
    by blast
  have rel: "sortBy = ''relevance'' \<Longrightarrow>
      mset rs = mset results \<and>
      sorted_wrt (\<lambda>a b. relevanceScore a \<ge> relevanceScore b) rs \<and>
      (\<forall>k. filter (\<lambda>r. relevanceScore r = k) rs = filter (\<lambda>r. relevanceScore r = k) results)"
    using sort_relevance_props [of results] by (simp add: rs)
  have dat: "sortBy = ''date'' \<Longrightarrow>
      mset rs = mset results \<and>
      sorted_wrt (\<lambda>a b. createdAt a \<ge> createdAt b) rs \<and>
      (\<forall>k. filter (\<lambda>r. createdAt r = k) rs = filter (\<lambda>r. createdAt r = k) results)"
    using sort_date_props [of results] by (simp add: rs)
  have oth: "sortBy \<noteq> ''relevance'' \<and> sortBy \<noteq> ''date'' \<Longrightarrow> rs = results"
    by (simp add: rs)
  have ms: "mset rs = mset results"
    using rel dat oth by blast
  show ?thesis
    using res ids flt ms rel dat oth by blast
qed

theorem search_result_order_witness:
  "\<forall>E. searchArticles E store_2 ''pets training'' ''relevance'' =
         Inr [with_score dog_article 2, with_score cats_article 1] \<and>
       matched_results E store_2 ''pets training'' =
         Inr [with_score cats_article 1, with_score dog_article 2] \<and>
       sorted_wrt (\<lambda>a b. relevanceScore a \<ge> relevanceScore b)
         [with_score dog_article 2, with_score cats_article 1] \<and>
       searchArticles E store_2 ''pets training'' ''date'' =
         Inr [with_score dog_article 2, with_score cats_article 1] \<and>
       sorted_wrt (\<lambda>a b. createdAt a \<ge> createdAt b)
         [with_score dog_article 2, with_score cats_article 1] \<and>
       searchArticles E store_2 ''pets training'' ''newest'' =
         Inr [with_score cats_article 1, with_score dog_article 2]"
  (is "\<forall>E. ?run E")
proof
  fix E :: regexp_engine
  have r: "searchArticles E store_2 ''pets training'' ''relevance'' =
             Inr [with_score dog_article 2, with_score cats_article 1]" by code_simp
  have d: "searchArticles E store_2 ''pets training'' ''date'' =
             Inr [with_score dog_article 2, with_score cats_article 1]" by code_simp
  have n: "searchArticles E store_2 ''pets training'' ''newest'' =
             Inr [with_score cats_article 1, with_score dog_article 2]" by code_simp
  have m: "matched_results E store_2 ''pets training'' =
             Inr [with_score cats_article 1, with_score dog_article 2]" by code_simp
  from search_result_order [OF r]
  have "sorted_wrt (\<lambda>a b. relevanceScore a \<ge> relevanceScore b)
          [with_score dog_article 2, with_score cats_article 1]" by auto
  moreover from search_result_order [OF d]
  have "sorted_wrt (\<lambda>a b. createdAt a \<ge> createdAt b)
          [with_score dog_article 2, with_score cats_article 1]" by auto
  ultimately show "?run E" using r d n m by simp
qed

section \<open>The score of a result\<close>

lemma calculateRelevance_sum:
  assumes "\<forall>t \<in> set ts. RegExp E (toLowerCase t) = Inr (re_of t)"
  shows "calculateRelevance E a ts =
           Inr (\<Sum>t\<leftarrow>ts. length (match_all (re_of t) (searchText_of a) 0))"
  using add_counts_sum [OF assms, of "searchText_of a" 0]
  by (simp add: calculateRelevance_def searchText_of_def)






section \<open>The candidates of a search\<close>

lemma buckets_within_mono: "buckets_within obj I \<Longrightarrow> I \<subseteq> J \<Longrightarrow> buckets_within obj J"
  unfolding buckets_within_def by blast

lemma push_id_within:
  "push_id obj k i = Inr obj' \<Longrightarrow> buckets_within obj I \<Longrightarrow> i \<in> I \<Longrightarrow> buckets_within obj' I"
  unfolding buckets_within_def push_id_def index_get_def Let_def
  by (auto simp: update_conv split: option.splits if_splits lookup.splits) blast+

lemma push_ids_within:
  "push_ids obj ks i = (r, obj') \<Longrightarrow> buckets_within obj I \<Longrightarrow> i \<in> I \<Longrightarrow> buckets_within obj' I"
proof (induction ks arbitrary: obj)
  case Nil
  then show ?case by simp
next
  case (Cons k ks)
  show ?case
  proof (cases "push_id obj k i")
    case (Inl e)
    with Cons.prems show ?thesis by simp
  next
    case (Inr obj1)
    with Cons.prems have "push_ids obj1 ks i = (r, obj')" by simp
    moreover have "buckets_within obj1 I" using Inr Cons.prems(2,3) by (rule push_id_within)
    ultimately show ?thesis using Cons.prems(3) by (rule Cons.IH)
  qed
qed

lemma indexArticle_within:
  assumes "indexArticle s a = (r, s')" and "index_ids_stored s" and "a \<in> set (articles s)"
  shows "index_ids_stored s'"
proof -
  let ?I = "id' ` set (articles s)"
  from assms(3) have i: "id' a \<in> ?I" by simp
  from assms(2) have kw: "buckets_within (index_keywords s) ?I"
    and tg: "buckets_within (index_tags s) ?I" by (simp_all add: index_ids_stored_def)
  obtain r1 kw' where p1: "push_ids (index_keywords s) (keywords_of a) (id' a) = (r1, kw')"
    by (cases "push_ids (index_keywords s) (keywords_of a) (id' a)") auto
  obtain r2 tg' where p2: "push_ids (index_tags s) (map toLowerCase (tags a)) (id' a) = (r2, tg')"
    by (cases "push_ids (index_tags s) (map toLowerCase (tags a)) (id' a)") auto
  note kw' = push_ids_within [OF p1 kw i] and tg' = push_ids_within [OF p2 tg i]
  show ?thesis
  proof (cases r1)
    case None
    with assms(1) p1 p2 have "s' = s\<lparr>index_keywords := kw', index_tags := tg'\<rparr>"
      by (simp add: indexArticle_def)
    with kw' tg' show ?thesis by (simp add: index_ids_stored_def)
  next
    case (Some e)
    with assms(1) p1 have "s' = s\<lparr>index_keywords := kw'\<rparr>"
      by (simp add: indexArticle_def)
    with kw' tg show ?thesis by (simp add: index_ids_stored_def)
  qed
qed

lemma persistArticles_stored:
  "index_ids_stored (persistArticles s w) = index_ids_stored s"
  by (simp add: index_ids_stored_def persistArticles_def)

lemma addArticle_stored:
  assumes "index_ids_stored s"
  shows "index_ids_stored (snd (addArticle s ttl cnt tgs now w))"
proof -
  let ?a = "new_article s ttl cnt tgs now"
  let ?s2 = "s\<lparr>nextId := plus_one (ToNumber (nextId s)), articles := articles s @ [?a]\<rparr>"
  have "index_ids_stored ?s2"
    using assms buckets_within_mono [of _ "id' ` set (articles s)" "id' ` set (articles s @ [?a])"]
    by (auto simp: index_ids_stored_def)
  moreover have "?a \<in> set (articles ?s2)" by simp
  moreover obtain r s3 where ix: "indexArticle ?s2 ?a = (r, s3)"
    by (cases "indexArticle ?s2 ?a") auto
  ultimately have s3: "index_ids_stored s3" by (intro indexArticle_within [OF ix])
  have "snd (addArticle s ttl cnt tgs now w) = s3 \<or>
        snd (addArticle s ttl cnt tgs now w) = persistArticles s3 w"
    using ix by (cases r) (simp_all add: addArticle_def Let_def new_article_def)
  with s3 show ?thesis by (auto simp: persistArticles_stored)
qed

lemma index_each_stored:
  "index_each s as = (r, s') \<Longrightarrow> index_ids_stored s \<Longrightarrow> set as \<subseteq> set (articles s) \<Longrightarrow>
     index_ids_stored s'"
proof (induction as arbitrary: s)
  case Nil
  then show ?case by simp
next
  case (Cons a as)
  obtain r1 s1 where ix: "indexArticle s a = (r1, s1)" by (cases "indexArticle s a") auto
  from Cons.prems have a: "a \<in> set (articles s)" by simp
  note s1 = indexArticle_within [OF ix Cons.prems(2) a]
  show ?case
  proof (cases r1)
    case None
    with Cons.prems(1) ix have "index_each s1 as = (r, s')" by simp
    moreover have "set as \<subseteq> set (articles s1)"
      using Cons.prems(3) indexArticle_frame [OF ix] by simp
    ultimately show ?thesis using s1 by (intro Cons.IH)
  next
    case (Some e)
    with Cons.prems(1) ix s1 show ?thesis by simp
  qed
qed

lemma loadArticles_stored:
  assumes "index_ids_stored s"
  shows "index_ids_stored (loadArticles s)"
proof (cases "articles_file s")
  case None
  with assms show ?thesis by (simp add: loadArticles_def)
next
  case (Some data)
  let ?s3 = "s\<lparr>articles := data, nextId := plus_one (Math_max (map id' data)),
                index_keywords := [], index_tags := []\<rparr>"
  obtain r s' where e: "index_each ?s3 data = (r, s')" by (cases "index_each ?s3 data") auto
  have "index_ids_stored ?s3" by (simp add: index_ids_stored_def buckets_within_def)
  from index_each_stored [OF e this] have "index_ids_stored s'" by simp
  with Some e show ?thesis by (simp add: loadArticles_def Let_def)
qed

lemma reachable_stored: "reachable s \<Longrightarrow> index_ids_stored s"
proof (induction rule: reachable.induct)
  case (start f)
  show ?case by (simp add: index_ids_stored_def buckets_within_def MiniSearchEngine_def)
next
  case (load s)
  then show ?case by (simp add: loadArticles_stored)
next
  case (add s ttl cnt tgs now w)
  then show ?case by (simp add: addArticle_stored)
next
  case (file_change s f)
  then show ?case by (simp add: index_ids_stored_def)
qed

lemma foldl_Set_add:
  "distinct st \<Longrightarrow> distinct (foldl Set_add st xs) \<and> set (foldl Set_add st xs) = set st \<union> set xs"
  by (induction xs arbitrary: st) (auto simp: Set_add_def)

lemma spread_or_empty_bucket:
  "spread_or_empty (index_get obj k) = Inr b \<Longrightarrow> b = bucket obj k"
  by (auto simp: spread_or_empty_def index_get_def bucket_def
           split: option.splits if_splits lookup.splits)

lemma collect_ids_Inr:
  "collect_ids (index_keywords s) (index_tags s) ts st = Inr matchedIds \<Longrightarrow> distinct st \<Longrightarrow>
     distinct matchedIds \<and>
     set matchedIds =
       set st \<union> (\<Union>t \<in> set ts. set (bucket (index_keywords s) t) \<union> set (bucket (index_tags s) t))"
proof (induction ts arbitrary: st)
  case Nil
  then show ?case by simp
next
  case (Cons t ts)
  from Cons.prems(1) obtain kws tgs where
    kws: "spread_or_empty (index_get (index_keywords s) t) = Inr kws" and
    tgs: "spread_or_empty (index_get (index_tags s) t) = Inr tgs" and
    rest: "collect_ids (index_keywords s) (index_tags s) ts (foldl Set_add st (kws @ tgs)) = Inr matchedIds"
    by (auto split: sum.splits)
  note f = foldl_Set_add [OF Cons.prems(2), of "kws @ tgs"]
  from Cons.IH [OF rest] f
  have "distinct matchedIds" and
    "set matchedIds = set st \<union> set (kws @ tgs) \<union>
       (\<Union>t \<in> set ts. set (bucket (index_keywords s) t) \<union> set (bucket (index_tags s) t))"
    by simp_all
  then show ?case
    using spread_or_empty_bucket [OF kws] spread_or_empty_bucket [OF tgs] by auto
qed

lemma bucket_within:
  "buckets_within obj I \<Longrightarrow> set (bucket obj k) \<subseteq> I"
proof (cases "map_of obj k")
  case None
  then show ?thesis by (simp add: bucket_def)
next
  case (Some b)
  assume "buckets_within obj I"
  with Some have "set b \<subseteq> I" unfolding buckets_within_def by blast
  with Some show ?thesis by (simp add: bucket_def)
qed

lemma in_bucket_bucket: "in_bucket obj k i \<longleftrightarrow> i \<in> set (bucket obj k)"
  by (simp add: in_bucket_def bucket_def split: option.splits)

text \<open>
  In every state the engine reaches, a search that returns has collected, for each
  term of the query, the identifiers of the term's keyword bucket and of its tag bucket
  into one set, each identifier once; the result holds exactly the stored articles whose
  identifier is in the set, whatever their score, and every identifier of the set is the
  identifier of a result. In particular an article that is in a bucket of only one of the
  terms is returned.
\<close>

theorem search_returns_every_candidate:
  assumes "reachable s" and "searchArticles E s q sortBy = Inr rs"
  shows "\<exists>matchedIds.
           collect_ids (index_keywords s) (index_tags s) (search_terms q) [] = Inr matchedIds \<and>
           distinct matchedIds \<and>
           set matchedIds =
             (\<Union>t \<in> set (search_terms q).
                set (bucket (index_keywords s) t) \<union> set (bucket (index_tags s) t)) \<and>
           mset (map article.truncate rs) =
             mset (filter (\<lambda>a. id' a \<in> set matchedIds) (articles s)) \<and>
           id' ` set rs = set matchedIds \<and>
           (\<forall>a \<in> set (articles s). \<forall>t \<in> set (search_terms q).
              in_bucket (index_keywords s) t (id' a) \<or> in_bucket (index_tags s) t (id' a) \<longrightarrow>
              a \<in> article.truncate ` set rs)"
proof -
  from searchArticles_Inr [OF assms(2)] obtain results where
    res: "matched_results E s q = Inr results" and
    rs: "rs = (if sortBy = ''relevance'' then Array_sort by_relevance results
               else if sortBy = ''date'' then Array_sort by_date results
               else results)" by blast
  from matched_results_Inr [OF res] obtain matchedIds where
    ids: "collect_ids (index_keywords s) (index_tags s) (search_terms q) [] = Inr matchedIds" and
    flt: "map article.truncate results = filter (\<lambda>a. id' a \<in> set matchedIds) (articles s)"
    by blast
  from collect_ids_Inr [OF ids] have dist: "distinct matchedIds" and
    un: "set matchedIds =
           (\<Union>t \<in> set (search_terms q).
              set (bucket (index_keywords s) t) \<union> set (bucket (index_tags s) t))"
    by simp_all
  have ms: "mset rs = mset results"
    using sort_relevance_props [of results] sort_date_props [of results] by (simp add: rs)
  then have "mset (map article.truncate rs) = mset (map article.truncate results)"
    by (metis mset_map)
  with flt have full: "mset (map article.truncate rs) =
                         mset (filter (\<lambda>a. id' a \<in> set matchedIds) (articles s))" by simp
  then have tr: "article.truncate ` set rs = {a \<in> set (articles s). id' a \<in> set matchedIds}"
    by (metis set_mset_mset set_map set_filter)
  have idt: "id' (article.truncate r) = id' r" for r :: scored_article
    by (simp add: article.truncate_def)
  from reachable_stored [OF assms(1)] have
    "buckets_within (index_keywords s) (id' ` set (articles s))"
    "buckets_within (index_tags s) (id' ` set (articles s))"
    by (simp_all add: index_ids_stored_def)
  then have "set matchedIds \<subseteq> id' ` set (articles s)"
    using un bucket_within by fastforce 
  then have "id' ` {a \<in> set (articles s). id' a \<in> set matchedIds} = set matchedIds" by auto
  then have "id' ` (article.truncate ` set rs) = set matchedIds" by (simp only: tr)
  then have img: "id' ` set rs = set matchedIds" by (simp add: image_image idt)
  have one: "a \<in> article.truncate ` set rs"
    if "a \<in> set (articles s)" "t \<in> set (search_terms q)"
       "in_bucket (index_keywords s) t (id' a) \<or> in_bucket (index_tags s) t (id' a)" for a t
  proof -
    from that(2,3) have "id' a \<in> set matchedIds"
      unfolding un in_bucket_bucket by blast
    with that(1) show ?thesis by (simp add: tr)
  qed
  from ids dist un full img one show ?thesis by blast
qed

theorem search_returns_every_candidate_witness:
  "\<forall>E. reachable store_2 \<and>
       searchArticles E store_2 ''cats training'' ''relevance'' =
         Inr [with_score cats_article 2, with_score dog_article 2] \<and>
       collect_ids (index_keywords store_2) (index_tags store_2)
         (search_terms ''cats training'') [] = Inr [Num 1, Num 2] \<and>
       id' ` set [with_score cats_article 2, with_score dog_article 2] = set [Num 1, Num 2]"
  (is "\<forall>E. ?run E")
proof
  fix E :: regexp_engine
  have "reachable (snd (addArticle (snd (addArticle (MiniSearchEngine None)
          ''Cats and Dogs'' ''Cats are great pets'' (Some [''pets'', ''animals'']) 1000 True))
          ''Dog Training'' ''Training your dog'' (Some [''pets'', ''training'']) 2000 True))"
    by (intro reachable.add reachable.start)
  then have re: "reachable store_2" by (simp add: store_2_def store_1_def)
  have run: "searchArticles E store_2 ''cats training'' ''relevance'' =
               Inr [with_score cats_article 2, with_score dog_article 2]" by code_simp
  have ids: "collect_ids (index_keywords store_2) (index_tags store_2)
               (search_terms ''cats training'') [] = Inr [Num 1, Num 2]"
    by code_simp
  from search_returns_every_candidate [OF re run] ids
  have "id' ` set [with_score cats_article 2, with_score dog_article 2] = set [Num 1, Num 2]"
    by auto
  with re run ids show "?run E" by simp
qed

section \<open>The handler of GET /articles/:id\<close>

subsection \<open>The Number value is a double\<close>

lemma bit_length_pos: "0 < n \<Longrightarrow> bit_length n = Suc (bit_length (n div 2))"
  by (simp add: bit_length.simps [of n])

lemma bit_length_bounds:
  "0 < n \<Longrightarrow> 2 ^ (bit_length n - 1) \<le> n \<and> n < 2 ^ bit_length n"
proof (induction n rule: bit_length.induct)
  case (1 n)
  show ?case
  proof (cases "0 < n div 2")
    case False
    with "1.prems" have n: "n = 1" by arith
    show ?thesis by (simp add: n bit_length.simps [of 1] bit_length.simps [of 0])
  next
    case True
    from "1.prems" have "\<not> n \<le> 0" by simp
    from "1.IH" [OF this True]
    have lo: "2 ^ (bit_length (n div 2) - 1) \<le> n div 2"
      and hi: "n div 2 < 2 ^ bit_length (n div 2)" by simp_all
    from bit_length_pos [OF True] obtain b where b: "bit_length (n div 2) = Suc b" by simp
    from lo b have "2 * 2 ^ b \<le> 2 * (n div 2)" by simp
    also have "\<dots> \<le> n" by arith
    finally have l: "2 ^ Suc b \<le> n" by simp
    from hi b have "n div 2 + 1 \<le> 2 ^ Suc b" by simp
    then have "2 * (n div 2) + 2 \<le> 2 * 2 ^ Suc b" by simp
    moreover have "n < 2 * (n div 2) + 2" by arith
    ultimately have h: "n < 2 ^ Suc (Suc b)" by simp
    from l h show ?thesis by (simp add: bit_length_pos [OF "1.prems"] b)
  qed
qed

lemma bit_length_eq:
  assumes "0 < b" and "2 ^ (b - 1) \<le> n" and "n < 2 ^ b"
  shows "bit_length n = b"
proof -
  have "(0 :: int) < 2 ^ (b - 1)" by simp
  with assms(2) have pos: "0 < n" by linarith
  note bd = bit_length_bounds [OF pos]
  from bit_length_pos [OF pos] have bpos: "0 < bit_length n" by simp
  from assms(2) bd have "(2 :: int) ^ (b - 1) < 2 ^ bit_length n" by linarith
  then have 1: "b - 1 < bit_length n" by (rule power_less_imp_less_exp [rotated]) simp
  from bd assms(3) have "(2 :: int) ^ (bit_length n - 1) < 2 ^ b" by linarith
  then have 2: "bit_length n - 1 < b" by (rule power_less_imp_less_exp [rotated]) simp
  from 1 2 assms(1) bpos show ?thesis by simp
qed

lemma Number_value_small: "m < 2 ^ 53 \<Longrightarrow> Number_value m = Some m"
  by (simp add: Number_value_def)

lemma Number_value_rounds:
  assumes big: "\<not> m < 2 ^ 53" and val: "Number_value m = Some d"
  shows "\<exists>sh q. 0 < sh \<and> 2 ^ 52 \<le> q \<and> q \<le> 2 ^ 53 \<and> d = q * 2 ^ sh \<and> d < 2 ^ 1024"
proof -
  define b where "b = bit_length m"
  define sh where "sh = b - 53"
  define q where "q = m div 2 ^ sh"
  define r where "r = m mod 2 ^ sh"
  define q' where "q' = (if 2 * r > 2 ^ sh \<or> (2 * r = 2 ^ sh \<and> odd q) then q + 1 else q)"
  from big have pos: "0 < m" by (simp add: not_less order.strict_trans2)
  note bd = bit_length_bounds [OF pos, folded b_def]
  from big bd have "(2 :: int) ^ 53 < 2 ^ b" by linarith
  then have b53: "53 < b" by (rule power_less_imp_less_exp [rotated]) simp
  then have sh: "0 < sh" and b: "b = sh + 53" by (simp_all add: sh_def)
  have p: "(0 :: int) < 2 ^ sh" by simp
  have "(2 :: int) ^ 52 * 2 ^ sh = 2 ^ (b - 1)" by (simp add: b power_add)
  with bd have "2 ^ 52 * 2 ^ sh \<le> m" by simp
  then have "(2 ^ 52 * 2 ^ sh) div 2 ^ sh \<le> m div 2 ^ sh" by (rule zdiv_mono1) simp
  then have ql: "2 ^ 52 \<le> q" by (simp add: q_def)
  have "(2 :: int) ^ 53 * 2 ^ sh = 2 ^ b" by (simp add: b power_add)
  with bd have up: "m < 2 ^ 53 * 2 ^ sh" by simp
  have "m div 2 ^ sh * 2 ^ sh \<le> m"
    using div_mult_mod_eq [of m "2 ^ sh"] pos_mod_sign [OF p, of m] by linarith
  then have "q * 2 ^ sh \<le> m" by (simp only: q_def)
  from this up have below: "q * 2 ^ sh < 2 ^ 53 * 2 ^ sh" by (rule le_less_trans)
  have qu: "q < 2 ^ 53"
  proof (rule ccontr)
    assume "\<not> q < 2 ^ 53"
    then have "2 ^ 53 \<le> q" by simp
    then have "2 ^ 53 * 2 ^ sh \<le> q * 2 ^ sh" by (intro mult_right_mono) simp_all
    with below show False by simp
  qed
  from ql qu have q': "2 ^ 52 \<le> q'" "q' \<le> 2 ^ 53" by (simp_all add: q'_def)
  from val big have "d = q' * 2 ^ sh \<and> d < 2 ^ 1024"
    unfolding Number_value_def Let_def b_def [symmetric] sh_def [symmetric]
      q_def [symmetric] r_def [symmetric] q'_def [symmetric]
    by (simp split: if_splits)
  with sh q' show ?thesis by blast
qed

lemma Number_value_double_less:
  assumes sh: "0 < sh" and ql: "2 ^ 52 \<le> q" and qu: "q < 2 ^ 53"
    and lt: "q * 2 ^ sh < 2 ^ 1024"
  shows "Number_value (q * 2 ^ sh) = Some (q * 2 ^ sh)"
proof -
  let ?d = "q * 2 ^ sh"
  have "(2 :: int) ^ 53 = 2 ^ 52 * 2 ^ 1" by simp
  also have "\<dots> \<le> 2 ^ 52 * 2 ^ sh"
    using sh by (intro mult_left_mono power_increasing) simp_all
  also have "\<dots> \<le> ?d" using ql by (intro mult_right_mono) simp_all
  finally have big: "\<not> ?d < 2 ^ 53" by simp
  have "2 ^ (sh + 53 - 1) = (2 :: int) ^ 52 * 2 ^ sh" by (simp add: power_add)
  also have "\<dots> \<le> ?d" using ql by (intro mult_right_mono) simp_all
  finally have lo: "2 ^ (sh + 53 - 1) \<le> ?d" .
  have "?d < 2 ^ 53 * 2 ^ sh" using qu by simp
  also have "\<dots> = 2 ^ (sh + 53)" by (simp add: power_add)
  finally have hi: "?d < 2 ^ (sh + 53)" .
  have bl: "bit_length ?d = sh + 53" using lo hi by (intro bit_length_eq) simp_all
  show ?thesis
    using big lt by (simp add: Number_value_def Let_def bl)
qed

lemma Number_value_double:
  assumes sh: "0 < sh" and ql: "2 ^ 52 \<le> q" and qu: "q \<le> 2 ^ 53"
    and lt: "q * 2 ^ sh < 2 ^ 1024"
  shows "Number_value (q * 2 ^ sh) = Some (q * 2 ^ sh)"
proof (cases "q = 2 ^ 53")
  case False
  with qu have "q < 2 ^ 53" by simp
  with sh ql lt show ?thesis by (intro Number_value_double_less)
next
  case True
  from lt have lt': "2 ^ 52 * 2 ^ Suc sh < (2 :: int) ^ 1024" by (simp add: True)
  have "Number_value (2 ^ 52 * 2 ^ Suc sh) = Some (2 ^ 52 * 2 ^ Suc sh)"
    by (rule Number_value_double_less) (use lt' in simp_all)
  then show ?thesis by (simp add: True)
qed

lemma Number_value_idem:
  assumes "Number_value m = Some d"
  shows "Number_value d = Some d"
proof (cases "m < 2 ^ 53")
  case True
  with assms show ?thesis by (simp add: Number_value_def)
next
  case False
  from Number_value_rounds [OF False assms] obtain sh q where
    "0 < sh" "2 ^ 52 \<le> q" "q \<le> 2 ^ 53" "d = q * 2 ^ sh" "d < 2 ^ 1024" by blast
  then show ?thesis using Number_value_double [of sh q] by simp
qed

lemma Number_value_nonneg:
  assumes "0 \<le> m" and "Number_value m = Some d"
  shows "0 \<le> d"
proof (cases "m < 2 ^ 53")
  case True
  with assms show ?thesis by (simp add: Number_value_def)
next
  case False
  from Number_value_rounds [OF False assms(2)] obtain sh q where
    "2 ^ 52 \<le> q" "d = q * 2 ^ sh" by blast
  moreover have "(0 :: int) \<le> 2 ^ 52" by simp
  ultimately show ?thesis by (simp add: order_trans)
qed

subsection \<open>Decimal digits\<close>

lemma dec_char_facts:
  assumes "dec_char c"
  shows "\<not> is_ws c" "c \<noteq> CHR ''-''" "c \<noteq> CHR ''+''" "c \<noteq> CHR ''x''" "c \<noteq> CHR ''X''"
    "is_digit 10 c" "is_digit 16 c"
  using assms
  by (auto simp: dec_char_def is_ws_def is_digit_def digit_value_def Let_def)

lemma dec_char_of: "d < 10 \<Longrightarrow> dec_char (char_of (48 + (d :: nat)))"
  by (simp add: dec_char_def)

lemma digit_value_of: "d < 10 \<Longrightarrow> digit_value (char_of (48 + (d :: nat))) = Some d"
  by (simp add: digit_value_def)

lemma dec_digits_chars: "0 \<le> n \<Longrightarrow> c \<in> set (dec_digits n) \<Longrightarrow> dec_char c"
proof (induction n rule: dec_digits.induct)
  case (1 n)
  show ?case
  proof (cases "n < 10")
    case True
    with "1.prems" show ?thesis by (simp add: dec_digits.simps [of n] dec_char_of)
  next
    case False
    with "1.prems" have "c \<in> set (dec_digits (n div 10)) \<or> c = char_of (48 + nat (n mod 10))"
      by (auto simp: dec_digits.simps [of n])
    then show ?thesis
    proof
      assume "c \<in> set (dec_digits (n div 10))"
      moreover from "1.prems" have "0 \<le> n div 10" by simp
      ultimately show ?thesis using "1.IH" [OF False] by simp
    next
      assume "c = char_of (48 + nat (n mod 10))"
      then show ?thesis by (simp add: dec_char_of)
    qed
  qed
qed

lemma dec_digits_nonempty: "dec_digits n \<noteq> []"
  by (simp add: dec_digits.simps [of n])

lemma value_of_snoc:
  "value_of R (Z @ [c]) =
     value_of R Z * int R + (case digit_value c of Some d \<Rightarrow> int d | None \<Rightarrow> 0)"
  by (simp add: value_of_def)

lemma value_of_dec_digits: "0 \<le> n \<Longrightarrow> value_of 10 (dec_digits n) = n"
proof (induction n rule: dec_digits.induct)
  case (1 n)
  show ?case
  proof (cases "n < 10")
    case True
    with "1.prems" show ?thesis
      by (simp add: dec_digits.simps [of n] value_of_def digit_value_of)
  next
    case False
    from "1.prems" have d: "0 \<le> n div 10" by simp
    have "value_of 10 (dec_digits n) = value_of 10 (dec_digits (n div 10)) * 10 + n mod 10"
      using False by (simp add: dec_digits.simps [of n] value_of_snoc digit_value_of)
    also have "\<dots> = n div 10 * 10 + n mod 10"
      using "1.IH" [OF False d] by simp
    also have "\<dots> = n" by simp
    finally show ?thesis .
  qed
qed

lemma value_of_nonneg: "0 \<le> value_of R Z"
proof -
  have "0 \<le> foldl (\<lambda>acc c. acc * int R + (case digit_value c of Some d \<Rightarrow> int d | None \<Rightarrow> 0)) a Z"
    if "0 \<le> a" for a
    using that
  proof (induction Z arbitrary: a)
    case Nil
    then show ?case by simp
  next
    case (Cons c Z)
    have "0 \<le> a * int R + (case digit_value c of Some d \<Rightarrow> int d | None \<Rightarrow> 0)"
      using Cons.prems by (simp split: option.splits)
    from Cons.IH [OF this] show ?case by simp
  qed
  then show ?thesis by (simp add: value_of_def)
qed

lemma dec_digits_upper: "n < 10 ^ length (dec_digits n)"
proof (induction n rule: dec_digits.induct)
  case (1 n)
  show ?case
  proof (cases "n < 10")
    case True
    then show ?thesis by (simp add: dec_digits.simps [of n])
  next
    case False
    from "1.IH" [OF False] have "n div 10 + 1 \<le> 10 ^ length (dec_digits (n div 10))" by simp
    then have "10 * (n div 10) + 10 \<le> 10 * 10 ^ length (dec_digits (n div 10))" by simp
    moreover have "n < 10 * (n div 10) + 10" by arith
    ultimately show ?thesis using False by (simp add: dec_digits.simps [of n])
  qed
qed

lemma dec_digits_lower: "0 < n \<Longrightarrow> 10 ^ (length (dec_digits n) - 1) \<le> n"
proof (induction n rule: dec_digits.induct)
  case (1 n)
  show ?case
  proof (cases "n < 10")
    case True
    with "1.prems" show ?thesis by (simp add: dec_digits.simps [of n])
  next
    case False
    then have "0 < n div 10" by arith
    from "1.IH" [OF False this]
    have "10 * 10 ^ (length (dec_digits (n div 10)) - 1) \<le> 10 * (n div 10)" by simp
    also have "\<dots> \<le> n" by arith
    finally have "10 * 10 ^ (length (dec_digits (n div 10)) - 1) \<le> n" .
    moreover have "length (dec_digits (n div 10)) \<noteq> 0"
      using dec_digits_nonempty [of "n div 10"] by simp
    then have "Suc (length (dec_digits (n div 10)) - 1) = length (dec_digits (n div 10))"
      by simp
    then have "(10 :: int) * 10 ^ (length (dec_digits (n div 10)) - 1) =
                 10 ^ length (dec_digits (n div 10))"
      by (metis power_Suc)
    ultimately show ?thesis using False by (simp add: dec_digits.simps [of n])
  qed
qed

lemma dec_digits_short:
  assumes "0 \<le> n" and "n < 10 ^ 21"
  shows "length (dec_digits n) \<le> 21"
proof (cases "n = 0")
  case True
  then show ?thesis by (simp add: dec_digits.simps [of 0])
next
  case False
  with assms(1) have "0 < n" by simp
  from dec_digits_lower [OF this] assms(2)
  have "(10 :: int) ^ (length (dec_digits n) - 1) < 10 ^ 21" by linarith
  then have "length (dec_digits n) - 1 < 21" by (rule power_less_imp_less_exp [rotated]) simp
  then show ?thesis by simp
qed

subsection \<open>The string of a number is read back as the number\<close>

lemma shortest_from_value:
  "Number_value x = Some x \<Longrightarrow> Number_value (shortest_from x nd k) = Some x"
proof (induction x nd k rule: shortest_from.induct)
  case (1 x nd k)
  show ?case
  proof (cases "nd \<le> k")
    case True
    with "1.prems" show ?thesis by (simp add: shortest_from.simps [of x nd k])
  next
    case False
    define p :: int where "p = 10 ^ (nd - k)"
    define lo where "lo = (x div p) * p"
    define hi where "hi = lo + p"
    have unf: "shortest_from x nd k =
        (if Number_value lo = Some x \<and> Number_value hi = Some x
         then (if x - lo < hi - x then lo
               else if hi - x < x - lo then hi
               else if even (x div p) then lo else hi)
         else if Number_value lo = Some x then lo
         else if Number_value hi = Some x then hi
         else shortest_from x nd (Suc k))"
      using False
      by (subst shortest_from.simps) (simp add: Let_def p_def lo_def hi_def)
    show ?thesis
    proof (cases "Number_value lo = Some x \<or> Number_value hi = Some x")
      case True
      then show ?thesis by (auto simp: unf)
    next
      case neither: False
      then have "shortest_from x nd k = shortest_from x nd (Suc k)" by (simp add: unf)
      moreover have "Number_value (shortest_from x nd (Suc k)) = Some x"
        using neither "1.prems"
        by (intro "1.IH" [OF False p_def lo_def hi_def]) simp_all
      ultimately show ?thesis by simp
    qed
  qed
qed

lemma shortest_from_bounds:
  assumes x: "0 \<le> x" "x < 10 ^ nd" and top: "Number_value (10 ^ nd) \<noteq> Some x"
  shows "0 \<le> shortest_from x nd k \<and> shortest_from x nd k < 10 ^ nd"
  using assms
proof (induction x nd k rule: shortest_from.induct)
  case (1 x nd k)
  show ?case
  proof (cases "nd \<le> k")
    case True
    with "1.prems" show ?thesis by (simp add: shortest_from.simps [of x nd k])
  next
    case False
    define p :: int where "p = 10 ^ (nd - k)"
    define lo where "lo = (x div p) * p"
    define hi where "hi = lo + p"
    have unf: "shortest_from x nd k =
        (if Number_value lo = Some x \<and> Number_value hi = Some x
         then (if x - lo < hi - x then lo
               else if hi - x < x - lo then hi
               else if even (x div p) then lo else hi)
         else if Number_value lo = Some x then lo
         else if Number_value hi = Some x then hi
         else shortest_from x nd (Suc k))"
      using False
      by (subst shortest_from.simps) (simp add: Let_def p_def lo_def hi_def)
    have p: "0 < p" by (simp add: p_def)
    have nd: "(10 :: int) ^ nd = 10 ^ k * p"
      using False by (simp add: p_def power_add [symmetric])
    have lo_x: "lo \<le> x"
      unfolding lo_def
      using div_mult_mod_eq [of x p] pos_mod_sign [OF p, of x] by linarith
    have lo0: "0 \<le> lo" using "1.prems"(1) p by (simp add: lo_def pos_imp_zdiv_nonneg_iff)
    have "x div p < 10 ^ k"
    proof (rule ccontr)
      assume "\<not> x div p < 10 ^ k"
      then have "10 ^ k \<le> x div p" by simp
      then have "10 ^ k * p \<le> x div p * p" using p by (intro mult_right_mono) simp_all
      with lo_x "1.prems"(2) show False by (simp add: nd lo_def)
    qed
    then have "x div p + 1 \<le> 10 ^ k" by simp
    then have "(x div p + 1) * p \<le> 10 ^ k * p" using p by (intro mult_right_mono) simp_all
    then have hi_le: "hi \<le> 10 ^ nd" by (simp add: hi_def lo_def nd algebra_simps)
    have hi_lt: "hi < 10 ^ nd" if "Number_value hi = Some x"
    proof (rule ccontr)
      assume "\<not> hi < 10 ^ nd"
      with hi_le have "hi = 10 ^ nd" by simp
      with that "1.prems"(3) show False by simp
    qed
    have hi0: "0 \<le> hi" using lo0 p by (simp add: hi_def)
    show ?thesis
    proof (cases "Number_value lo = Some x \<or> Number_value hi = Some x")
      case True
      then show ?thesis
        using lo0 hi0 lo_x hi_lt "1.prems"(2) by (auto simp: unf)
    next
      case neither: False
      then have "shortest_from x nd k = shortest_from x nd (Suc k)" by (simp add: unf)
      moreover have "0 \<le> shortest_from x nd (Suc k) \<and> shortest_from x nd (Suc k) < 10 ^ nd"
        using neither "1.prems"
        by (intro "1.IH" [OF False p_def lo_def hi_def]) simp_all
      ultimately show ?thesis by simp
    qed
  qed
qed

lemma Number_value_power_10: "n \<le> 21 \<Longrightarrow> Number_value (10 ^ n) = Some (10 ^ n)"
proof -
  assume "n \<le> 21"
  then have "n \<in> set [0..<22]" by simp
  moreover have "\<forall>n \<in> set [0..<22]. Number_value (10 ^ n) = Some (10 ^ n)" by code_simp
  ultimately show ?thesis by blast
qed

lemma shortest_decimal_reads:
  assumes d: "0 \<le> d" "d < 10 ^ 21" and dbl: "Number_value d = Some d"
  shows "0 \<le> shortest_decimal d \<and> shortest_decimal d < 10 ^ 21 \<and>
         Number_value (shortest_decimal d) = Some d"
proof -
  let ?nd = "length (dec_digits d)"
  from dec_digits_short [OF d] have nd: "?nd \<le> 21" .
  have up: "d < 10 ^ ?nd" by (rule dec_digits_upper)
  from Number_value_power_10 [OF nd] up have "Number_value (10 ^ ?nd) \<noteq> Some d" by simp
  from shortest_from_bounds [OF d(1) up this, of 1]
  have "0 \<le> shortest_decimal d" and lt: "shortest_decimal d < 10 ^ ?nd"
    by (simp_all add: shortest_decimal_def)
  moreover have "(10 :: int) ^ ?nd \<le> 10 ^ 21" using nd by (intro power_increasing) simp_all
  moreover have "Number_value (shortest_decimal d) = Some d"
    unfolding shortest_decimal_def using dbl by (rule shortest_from_value)
  ultimately show ?thesis using lt by linarith
qed

lemma Number_toString_digits:
  assumes "0 \<le> d" "d < 10 ^ 21" "Number_value d = Some d"
  shows "Number_toString d = dec_digits (shortest_decimal d)"
proof -
  from shortest_decimal_reads [OF assms]
  have "length (dec_digits (shortest_decimal d)) \<le> 21" by (intro dec_digits_short) simp_all
  then show ?thesis by (simp add: Number_toString_def Let_def)
qed

subsection \<open>What parseInt reads\<close>

lemma skip_whitespace:
  assumes "\<forall>c \<in> set ws. is_ws c" and "S = [] \<or> \<not> is_ws (hd S)"
  shows "dropWhile is_ws (ws @ S) = S"
proof -
  have "dropWhile is_ws (ws @ S) = dropWhile is_ws S"
    using assms(1) by (simp add: dropWhile_append2)
  also have "\<dots> = S" using assms(2) by (cases S) auto
  finally show ?thesis .
qed

lemma parseInt_body:
  assumes ws: "\<forall>c \<in> set ws. is_ws c" and sg: "is_sign sg"
    and body: "sg = [] \<longrightarrow> body = [] \<or>
                 (\<not> is_ws (hd body) \<and> hd body \<noteq> CHR ''+'' \<and> hd body \<noteq> CHR ''-'')"
  shows "parseInt (ws @ sg @ body) =
           (if takeWhile (is_digit (if hex_prefix (take 2 body) then 16 else 10))
                 (if hex_prefix (take 2 body) then drop 2 body else body) = []
            then NaN
            else signed (sign_of sg)
                   (value_of (if hex_prefix (take 2 body) then 16 else 10)
                      (takeWhile (is_digit (if hex_prefix (take 2 body) then 16 else 10))
                         (if hex_prefix (take 2 body) then drop 2 body else body))))"
proof -
  from sg consider "sg = []" | "sg = ''+''" | "sg = ''-''" by (auto simp: is_sign_def)
  then show ?thesis
  proof cases
    case 1
    with body have b: "body = [] \<or>
        (\<not> is_ws (hd body) \<and> hd body \<noteq> CHR ''+'' \<and> hd body \<noteq> CHR ''-'')" by simp
    then have "dropWhile is_ws (ws @ body) = body"
      using ws by (intro skip_whitespace) auto
    then show ?thesis
      using b unfolding parseInt_def Let_def
      by (auto simp: 1 sign_of_def hex_prefix_def)
  next
    case 2
    have "dropWhile is_ws (ws @ CHR ''+'' # body) = CHR ''+'' # body"
      using ws by (intro skip_whitespace) (simp_all add: is_ws_def)
    then show ?thesis
      unfolding parseInt_def Let_def
      by (simp add: 2 sign_of_def hex_prefix_def)
  next
    case 3
    have "dropWhile is_ws (ws @ CHR ''-'' # body) = CHR ''-'' # body"
      using ws by (intro skip_whitespace) (simp_all add: is_ws_def)
    then show ?thesis
      unfolding parseInt_def Let_def
      by (simp add: 3 sign_of_def hex_prefix_def)
  qed
qed

lemma takeWhile_run:
  assumes "\<forall>c \<in> set ds. is_digit R c" and "no_digit R rest"
  shows "takeWhile (is_digit R) (ds @ rest) = ds"
proof -
  have "takeWhile (is_digit R) rest = []"
    using assms(2) by (cases rest) (simp_all add: no_digit_def)
  then show ?thesis using assms(1) by (simp add: takeWhile_append2)
qed

lemma parseInt_decimal:
  assumes ws: "\<forall>c \<in> set ws. is_ws c" and sg: "is_sign sg"
    and ds: "ds \<noteq> []" "\<forall>c \<in> set ds. dec_char c" and rest: "no_digit 10 rest"
    and nohex: "\<not> hex_prefix (take 2 (ds @ rest))"
  shows "parseInt (ws @ sg @ ds @ rest) = signed (sign_of sg) (value_of 10 ds)"
proof -
  from ds have h: "dec_char (hd ds)" by simp
  have hd: "hd (ds @ rest) = hd ds" using ds(1) by simp
  have "takeWhile (is_digit 10) (ds @ rest) = ds"
    using ds(2) rest dec_char_facts(6) by (intro takeWhile_run) auto
  moreover have "sg = [] \<longrightarrow> ds @ rest = [] \<or>
      (\<not> is_ws (hd (ds @ rest)) \<and> hd (ds @ rest) \<noteq> CHR ''+'' \<and> hd (ds @ rest) \<noteq> CHR ''-'')"
    using dec_char_facts(1,2,3) [OF h] by (simp add: hd)
  ultimately show ?thesis
    using parseInt_body [OF ws sg, of "ds @ rest"] nohex ds(1) by simp
qed

lemma parseInt_hexadecimal:
  assumes ws: "\<forall>c \<in> set ws. is_ws c" and sg: "is_sign sg" and px: "hex_prefix px"
    and hs: "hs \<noteq> []" "\<forall>c \<in> set hs. is_digit 16 c" and rest: "no_digit 16 rest"
  shows "parseInt (ws @ sg @ px @ hs @ rest) = signed (sign_of sg) (value_of 16 hs)"
proof -
  from px obtain x where x: "px = [CHR ''0'', x]" "x = CHR ''x'' \<or> x = CHR ''X''"
    by (auto simp: hex_prefix_def)
  have tk: "take 2 (px @ hs @ rest) = px" "drop 2 (px @ hs @ rest) = hs @ rest"
    by (simp_all add: x)
  have tw: "takeWhile (is_digit 16) (hs @ rest) = hs"
    using hs(2) rest by (rule takeWhile_run)
  have "sg = [] \<longrightarrow> px @ hs @ rest = [] \<or>
      (\<not> is_ws (hd (px @ hs @ rest)) \<and> hd (px @ hs @ rest) \<noteq> CHR ''+'' \<and>
       hd (px @ hs @ rest) \<noteq> CHR ''-'')"
    by (simp add: x is_ws_def)
  from parseInt_body [OF ws sg this] show ?thesis
    by (simp only: tk px if_True tw) (simp add: hs(1))
qed

lemma parseInt_no_digit:
  assumes ws: "\<forall>c \<in> set ws. is_ws c" and sg: "is_sign sg" and rest: "no_digit 10 rest"
    and body: "sg = [] \<longrightarrow> rest = [] \<or>
                 (\<not> is_ws (hd rest) \<and> hd rest \<noteq> CHR ''+'' \<and> hd rest \<noteq> CHR ''-'')"
  shows "parseInt (ws @ sg @ rest) = NaN"
proof -
  have nohex: "\<not> hex_prefix (take 2 rest)"
  proof
    assume "hex_prefix (take 2 rest)"
    then obtain cs where "rest = CHR ''0'' # cs"
      by (cases rest) (auto simp: hex_prefix_def)
    with rest show False by (simp add: no_digit_def is_digit_def digit_value_def)
  qed
  have "takeWhile (is_digit 10) rest = []"
    using rest by (cases rest) (simp_all add: no_digit_def)
  then show ?thesis
    using parseInt_body [OF ws sg body] nohex by simp
qed

lemma parseInt_no_hex_digit:
  assumes ws: "\<forall>c \<in> set ws. is_ws c" and sg: "is_sign sg" and px: "hex_prefix px"
    and rest: "no_digit 16 rest"
  shows "parseInt (ws @ sg @ px @ rest) = NaN"
proof -
  from px obtain x where x: "px = [CHR ''0'', x]" "x = CHR ''x'' \<or> x = CHR ''X''"
    by (auto simp: hex_prefix_def)
  have tk: "take 2 (px @ rest) = px" "drop 2 (px @ rest) = rest"
    by (simp_all add: x)
  have tw: "takeWhile (is_digit 16) rest = []"
    using rest by (cases rest) (simp_all add: no_digit_def)
  have "sg = [] \<longrightarrow> px @ rest = [] \<or>
      (\<not> is_ws (hd (px @ rest)) \<and> hd (px @ rest) \<noteq> CHR ''+'' \<and> hd (px @ rest) \<noteq> CHR ''-'')"
    by (simp add: x is_ws_def)
  from parseInt_body [OF ws sg this] show ?thesis
    by (simp only: tk px if_True tw) simp
qed

lemma parseInt_Num:
  assumes "parseInt str = Num n"
  shows "Number_value \<bar>n\<bar> = Some \<bar>n\<bar>"
proof -
  define S where "S = dropWhile is_ws str"
  define sign where "sign = (if S \<noteq> [] \<and> hd S = CHR ''-'' then - 1 else (1 :: int))"
  define S1 where "S1 = (if S \<noteq> [] \<and> (hd S = CHR ''+'' \<or> hd S = CHR ''-'') then tl S else S)"
  define hex where "hex = (take 2 S1 = ''0x'' \<or> take 2 S1 = ''0X'')"
  define R where "R = (if hex then 16 else (10 :: nat))"
  define Z where "Z = takeWhile (is_digit R) (if hex then drop 2 S1 else S1)"
  have shape: "parseInt str = (if Z = [] then NaN else signed sign (value_of R Z))"
    unfolding parseInt_def Let_def S_def sign_def S1_def hex_def R_def Z_def ..
  have sg: "\<bar>sign\<bar> = 1" by (simp add: sign_def)
  from assms shape obtain d where d: "Number_value (value_of R Z) = Some d" and n: "n = sign * d"
    by (auto simp: signed_def split: if_splits option.splits)
  from Number_value_nonneg [OF value_of_nonneg d] have "0 \<le> d" .
  with n sg have "\<bar>n\<bar> = d" by (simp add: abs_mult)
  with Number_value_idem [OF d] show ?thesis by simp
qed

lemma parseInt_values:
  "parseInt str = NaN \<or> parseInt str = Infinity \<or> parseInt str = NegInfinity \<or>
   (\<exists>n. parseInt str = Num n)"
  unfolding parseInt_def Let_def signed_def
  by (simp split: option.splits)

lemma hex_prefix_digits:
  assumes "\<forall>c \<in> set ds. dec_char c"
  shows "\<not> hex_prefix (take 2 ds)"
proof
  assume "hex_prefix (take 2 ds)"
  then obtain x cs where ds: "ds = CHR ''0'' # x # cs" and "x = CHR ''x'' \<or> x = CHR ''X''"
    by (cases ds; cases "tl ds") (auto simp: hex_prefix_def)
  with assms have "dec_char x" by simp
  with dec_char_facts(4,5) [of x] \<open>x = CHR ''x'' \<or> x = CHR ''X''\<close> show False by auto
qed

lemma parseInt_ToString_Num:
  assumes dbl: "Number_value \<bar>n\<bar> = Some \<bar>n\<bar>" and lt: "\<bar>n\<bar> < 10 ^ 21"
  shows "parseInt (ToString (Num n)) = Num n"
proof -
  let ?d = "\<bar>n\<bar>" and ?v = "shortest_decimal \<bar>n\<bar>"
  have d0: "0 \<le> ?d" by simp
  from shortest_decimal_reads [OF d0 lt dbl]
  have v0: "0 \<le> ?v" and v: "Number_value ?v = Some ?d" by simp_all
  have str: "Number_toString ?d = dec_digits ?v"
    using d0 lt dbl by (rule Number_toString_digits)
  have chars: "\<forall>c \<in> set (dec_digits ?v). dec_char c"
    using dec_digits_chars [OF v0] by blast
  have read: "parseInt ([] @ sg @ dec_digits ?v @ []) = signed (sign_of sg) ?v"
    if "is_sign sg" for sg
    using parseInt_decimal [of "[]" sg "dec_digits ?v" "[]"] that chars
      hex_prefix_digits [OF chars] dec_digits_nonempty [of ?v] value_of_dec_digits [OF v0]
    by (simp add: no_digit_def)
  show ?thesis
  proof (cases "n < 0")
    case True
    then have "ToString (Num n) = CHR ''-'' # dec_digits ?v"
      using str by simp
    moreover have "parseInt (CHR ''-'' # dec_digits ?v) = signed (- 1) ?v"
      using read [of "''-''"] by (simp add: is_sign_def sign_of_def)
    ultimately show ?thesis using True v by (simp add: signed_def)
  next
    case False
    then have "ToString (Num n) = dec_digits ?v"
      using str by simp
    moreover have "parseInt (dec_digits ?v) = signed 1 ?v"
      using read [of "[]"] by (simp add: is_sign_def sign_of_def)
    ultimately show ?thesis using False v by (simp add: signed_def)
  qed
qed

lemma find_strict_eq_NaN: "find (\<lambda>a. strict_eq (id' a) NaN) as = None"
  by (induction as) (simp_all add: strict_eq_def)

lemma getArticle_not_finite:
  assumes "v = NaN \<or> v = Infinity \<or> v = NegInfinity"
  shows "getArticle s v = None"
proof -
  have "parseInt (ToString NaN) = NaN" "parseInt (ToString Infinity) = NaN"
    "parseInt (ToString NegInfinity) = NaN" by code_simp+
  with assms have "parseInt (ToString v) = NaN" by auto
  then show ?thesis by (simp add: getArticle_def find_strict_eq_NaN del: ToString.simps)
qed

lemma getArticle_Num:
  assumes "Number_value \<bar>n\<bar> = Some \<bar>n\<bar>" and "\<bar>n\<bar> < 10 ^ 21"
  shows "getArticle s (Num n) = find (\<lambda>a. id' a = Num n) (articles s)"
proof -
  have "strict_eq v (Num n) = (v = Num n)" for v by (auto simp: strict_eq_def)
  then show ?thesis
    by (simp add: getArticle_def parseInt_ToString_Num [OF assms] del: ToString.simps)
qed

subsection \<open>The response\<close>

lemma get_article_by_id_not_finite:
  assumes "parseInt seg = NaN \<or> parseInt seg = Infinity \<or> parseInt seg = NegInfinity"
  shows "get_article_by_id s seg = Response 404 (ErrorJson ''Article not found'')"
  using getArticle_not_finite [OF assms, of s] by (simp add: get_article_by_id_def)

lemma get_article_by_id_Num:
  assumes "parseInt seg = Num n" and "\<bar>n\<bar> < 10 ^ 21"
  shows "get_article_by_id s seg =
           (case find (\<lambda>a. id' a = Num n) (articles s) of
              Some a \<Rightarrow> Response 200 (ArticleJson a)
            | None \<Rightarrow> Response 404 (ErrorJson ''Article not found''))"
  using getArticle_Num [OF parseInt_Num [OF assms(1)] assms(2), of s] assms(1)
  by (simp add: get_article_by_id_def split: option.splits)

lemma signed_small: "v < 2 ^ 53 \<Longrightarrow> signed k v = Num (k * v)"
  by (simp add: signed_def Number_value_small)

text \<open>
  C8 (as amended). \<open>parseInt\<close> reads a number from the path segment: it skips leading
  whitespace and an optional sign and reads the decimal digits that follow, or after
  \<open>0x\<close> or \<open>0X\<close> the hexadecimal digits, up to the first other character; what follows
  the digits is ignored, the number is rounded to a double (below \<open>2^53\<close> it is exact),
  and without a digit the result is \<open>NaN\<close>. When the number is below \<open>10^21\<close> in
  magnitude, the response is 200 with the first stored article whose identifier equals
  it, and 404 with the error \<open>Article not found\<close> when no article has this identifier.
  When the result is \<open>NaN\<close> or infinite, the response is 404. The counterexample holds
  the segment \<open>1abc\<close>, which resolves to the article 1, and the segment
  \<open>1000000000000000000000\<close>, an integer that is the identifier of no article and resolves
  to the article 1 as well.
\<close>

theorem get_article_by_id_reads_leading_integer:
  "(parseInt seg = NaN \<or> parseInt seg = Infinity \<or> parseInt seg = NegInfinity \<longrightarrow>
      get_article_by_id s seg = Response 404 (ErrorJson ''Article not found'')) \<and>
   (parseInt seg = Num n \<and> \<bar>n\<bar> < 10 ^ 21 \<longrightarrow>
      get_article_by_id s seg =
        (case find (\<lambda>a. id' a = Num n) (articles s) of
           Some a \<Rightarrow> Response 200 (ArticleJson a)
         | None \<Rightarrow> Response 404 (ErrorJson ''Article not found''))) \<and>
   ((\<forall>c \<in> set ws. is_ws c) \<and> is_sign sg \<longrightarrow>
      (ds \<noteq> [] \<and> (\<forall>c \<in> set ds. dec_char c) \<and> no_digit 10 rest \<and>
       \<not> hex_prefix (take 2 (ds @ rest)) \<longrightarrow>
         parseInt (ws @ sg @ ds @ rest) = signed (sign_of sg) (value_of 10 ds)) \<and>
      (hex_prefix px \<and> hs \<noteq> [] \<and> (\<forall>c \<in> set hs. is_digit 16 c) \<and> no_digit 16 rest \<longrightarrow>
         parseInt (ws @ sg @ px @ hs @ rest) = signed (sign_of sg) (value_of 16 hs)) \<and>
      (hex_prefix px \<and> no_digit 16 rest \<longrightarrow> parseInt (ws @ sg @ px @ rest) = NaN) \<and>
      (no_digit 10 rest \<and>
       (sg = [] \<longrightarrow> rest = [] \<or>
          (\<not> is_ws (hd rest) \<and> hd rest \<noteq> CHR ''+'' \<and> hd rest \<noteq> CHR ''-'')) \<longrightarrow>
         parseInt (ws @ sg @ rest) = NaN)) \<and>
   (v < 2 ^ 53 \<longrightarrow> signed k v = Num (k * v)) \<and>
   (parseInt seg = NaN \<or> parseInt seg = Infinity \<or> parseInt seg = NegInfinity \<or>
    (\<exists>n. parseInt seg = Num n))"
proof (intro conjI impI)
  assume "parseInt seg = NaN \<or> parseInt seg = Infinity \<or> parseInt seg = NegInfinity"
  then show "get_article_by_id s seg = Response 404 (ErrorJson ''Article not found'')"
    by (rule get_article_by_id_not_finite)
next
  assume "parseInt seg = Num n \<and> \<bar>n\<bar> < 10 ^ 21"
  then show "get_article_by_id s seg =
        (case find (\<lambda>a. id' a = Num n) (articles s) of
           Some a \<Rightarrow> Response 200 (ArticleJson a)
         | None \<Rightarrow> Response 404 (ErrorJson ''Article not found''))"
    using get_article_by_id_Num by blast
next
  assume "(\<forall>c \<in> set ws. is_ws c) \<and> is_sign sg"
    and "ds \<noteq> [] \<and> (\<forall>c \<in> set ds. dec_char c) \<and> no_digit 10 rest \<and>
         \<not> hex_prefix (take 2 (ds @ rest))"
  then show "parseInt (ws @ sg @ ds @ rest) = signed (sign_of sg) (value_of 10 ds)"
    by (intro parseInt_decimal) simp_all
next
  assume "(\<forall>c \<in> set ws. is_ws c) \<and> is_sign sg"
    and "hex_prefix px \<and> hs \<noteq> [] \<and> (\<forall>c \<in> set hs. is_digit 16 c) \<and> no_digit 16 rest"
  then show "parseInt (ws @ sg @ px @ hs @ rest) = signed (sign_of sg) (value_of 16 hs)"
    by (intro parseInt_hexadecimal) simp_all
next
  assume "(\<forall>c \<in> set ws. is_ws c) \<and> is_sign sg" and "hex_prefix px \<and> no_digit 16 rest"
  then show "parseInt (ws @ sg @ px @ rest) = NaN"
    by (intro parseInt_no_hex_digit) simp_all
next
  assume "(\<forall>c \<in> set ws. is_ws c) \<and> is_sign sg"
    and "no_digit 10 rest \<and>
       (sg = [] \<longrightarrow> rest = [] \<or>
          (\<not> is_ws (hd rest) \<and> hd rest \<noteq> CHR ''+'' \<and> hd rest \<noteq> CHR ''-''))"
  then show "parseInt (ws @ sg @ rest) = NaN"
    by (intro parseInt_no_digit) simp_all
next
  assume "v < 2 ^ 53"
  then show "signed k v = Num (k * v)" by (rule signed_small)
next
  show "parseInt seg = NaN \<or> parseInt seg = Infinity \<or> parseInt seg = NegInfinity \<or>
    (\<exists>n. parseInt seg = Num n)" by (rule parseInt_values)
qed

theorem get_article_by_id_reads_leading_integer_witness:
  "parseInt ''1abc'' = Num 1 \<and>
   get_article_by_id store_2 ''1abc'' = Response 200 (ArticleJson cats_article) \<and>
   get_article_by_id store_2 ''999'' = Response 404 (ErrorJson ''Article not found'') \<and>
   get_article_by_id store_2 ''abc'' = Response 404 (ErrorJson ''Article not found'') \<and>
   parseInt '' -12px'' = Num (- 12) \<and>
   parseInt ''0x1F'' = Num 31 \<and>
   parseInt ''0xg'' = NaN \<and>
   parseInt '' +'' = NaN"
proof -
  note one = get_article_by_id_reads_leading_integer
    [where seg = "''1abc''" and s = store_2 and n = 1 and ws = "[]" and sg = "[]"
       and ds = "''1''" and rest = "''abc''" and v = 1 and k = 1]
  note two = get_article_by_id_reads_leading_integer
    [where seg = "''999''" and s = store_2 and n = 999 and ws = "'' ''" and sg = "''-''"
       and ds = "''12''" and rest = "''px''" and v = 12 and k = "- 1"]
  note three = get_article_by_id_reads_leading_integer
    [where seg = "''abc''" and s = store_2 and ws = "[]" and sg = "[]"
       and rest = "[]" and px = "''0x''" and hs = "''1F''" and v = 31 and k = 1]
  note four = get_article_by_id_reads_leading_integer
    [where ws = "[]" and sg = "[]" and rest = "''g''" and px = "''0x''"]
  note five = get_article_by_id_reads_leading_integer
    [where ws = "'' ''" and sg = "''+''" and rest = "[]"]
  have plain: "\<forall>c \<in> set []. is_ws c" "\<forall>c \<in> set '' ''. is_ws c" "is_sign []" "is_sign ''-''"
    "is_sign ''+''" "\<forall>c \<in> set ''1''. dec_char c" "\<forall>c \<in> set ''12''. dec_char c"
    "\<forall>c \<in> set ''1F''. is_digit 16 c" "hex_prefix ''0x''"
    "no_digit 10 ''abc''" "no_digit 10 ''px''" "no_digit 16 []" "no_digit 16 ''g''"
    "no_digit 10 []" "\<not> hex_prefix (take 2 (''1'' @ ''abc''))"
    "\<not> hex_prefix (take 2 (''12'' @ ''px''))"
    by code_simp+
  have vals: "value_of 10 ''1'' = 1" "value_of 10 ''12'' = 12" "value_of 16 ''1F'' = 31"
    "sign_of [] = 1" "sign_of ''-'' = - 1"
    by code_simp+
  from one plain have "parseInt ''1abc'' = signed 1 1" by (simp add: vals)
  with one have p1: "parseInt ''1abc'' = Num 1" by simp
  have f1: "find (\<lambda>a. id' a = Num 1) (articles store_2) = Some cats_article" by code_simp
  from one p1 f1
  have r1: "get_article_by_id store_2 ''1abc'' = Response 200 (ArticleJson cats_article)"
    by simp
  have p2: "parseInt ''999'' = Num 999" by code_simp
  have f2: "find (\<lambda>a. id' a = Num 999) (articles store_2) = None" by code_simp
  from two p2 f2
  have r2: "get_article_by_id store_2 ''999'' = Response 404 (ErrorJson ''Article not found'')"
    by simp
  have p3: "parseInt ''abc'' = NaN" by code_simp
  from three p3
  have r3: "get_article_by_id store_2 ''abc'' =
              Response 404 (ErrorJson ''Article not found'')" by simp
  from two plain have "parseInt '' -12px'' = signed (- 1) 12" by (simp add: vals)
  with two have p4: "parseInt '' -12px'' = Num (- 12)" by simp
  from three plain have "parseInt ''0x1F'' = signed 1 31" by (simp add: vals)
  with three have p5: "parseInt ''0x1F'' = Num 31" by simp
  from four plain have p6: "parseInt ''0xg'' = NaN" by simp
  from five plain have p7: "parseInt '' +'' = NaN" by simp
  from p1 r1 r2 r3 p4 p5 p6 p7 show ?thesis by simp
qed

theorem trailing_characters_resolve:
  "get_article_by_id store_2 ''1abc'' = Response 200 (ArticleJson cats_article) \<and>
   get_article_by_id store_2 ''1000000000000000000000'' =
     Response 200 (ArticleJson cats_article) \<and>
   parseInt ''1000000000000000000000'' = Num (10 ^ 21) \<and>
   ToString (Num (10 ^ 21)) = ''1e+21'' \<and>
   parseInt ''1e+21'' = Num 1 \<and>
   map id' (articles store_2) = [Num 1, Num 2] \<and>
   cats_article \<in> set (articles store_2) \<and> id' cats_article = Num 1"
  by code_simp

section \<open>The search on a heap of objects\<close>

subsection \<open>What the search leaves alone\<close>

lemma extends_refl: "extends h h"
  by (simp add: extends_def)

lemma extends_trans: "extends h h1 \<Longrightarrow> extends h1 h2 \<Longrightarrow> extends h h2"
proof -
  assume a: "extends h h1" and b: "extends h1 h2"
  then have le: "length h \<le> length h1" "length h1 \<le> length h2" by (simp_all add: extends_def)
  have "take (length h) h2 = take (length h) (take (length h1) h2)"
    using le by (simp add: min_def)
  also have "\<dots> = take (length h) h1" using b by (simp add: extends_def)
  also have "\<dots> = h" using a by (simp add: extends_def)
  finally show ?thesis using le by (simp add: extends_def)
qed

lemma extends_nth: "extends h h' \<Longrightarrow> x < length h \<Longrightarrow> h' ! x = h ! x"
proof -
  assume a: "extends h h'" and x: "x < length h"
  then have "take (length h) h' ! x = h' ! x" by simp
  with a show ?thesis by (simp add: extends_def)
qed

lemma extends_alloc: "alloc h c = (r, h') \<Longrightarrow> r = length h \<and> extends h h' \<and> length h' = Suc (length h)"
  by (auto simp: alloc_def extends_def)

lemma extends_update:
  "extends h h' \<Longrightarrow> length h \<le> i \<Longrightarrow> extends h (h'[i := c])"
  by (simp add: extends_def)

lemma get_object_extends:
  "extends h h' \<Longrightarrow> x < length h \<Longrightarrow> get_object h' x = get_object h x"
  using extends_nth [of h h' x] by (simp add: get_object_def extends_def)

lemma get_array_extends:
  "extends h h' \<Longrightarrow> x < length h \<Longrightarrow> get_array h' x = get_array h x"
  using extends_nth [of h h' x] by (simp add: get_array_def extends_def)

lemma map_scored_extends:
  "map_scored E h searchTerms rs = (res, h') \<Longrightarrow>
     extends h h' \<and>
     (\<forall>scored. res = Inr scored \<longrightarrow> (\<forall>x \<in> set scored. length h \<le> x \<and> x < length h'))"
proof (induction rs arbitrary: h res h')
  case Nil
  then show ?case by (auto simp: extends_refl)
next
  case (Cons r rs)
  show ?case
  proof (cases "get_object h r")
    case None
    with Cons.prems show ?thesis by (auto simp: extends_refl)
  next
    case (Some p)
    obtain a sc where p: "p = (a, sc)" by (cases p) auto
    show ?thesis
    proof (cases "calculateRelevance E a searchTerms")
      case (Inl e)
      with Cons.prems Some p show ?thesis by (auto simp: extends_refl)
    next
      case (Inr n)
      obtain r' h1 where al: "alloc h (Object a (Some n)) = (r', h1)"
        by (cases "alloc h (Object a (Some n))") auto
      obtain res1 h2 where rec: "map_scored E h1 searchTerms rs = (res1, h2)"
        by (cases "map_scored E h1 searchTerms rs") auto
      from extends_alloc [OF al] have r': "r' = length h" and e1: "extends h h1"
        and l1: "length h1 = Suc (length h)" by simp_all
      from Cons.IH [OF rec] have e2: "extends h1 h2" and
        fresh: "\<forall>scored. res1 = Inr scored \<longrightarrow> (\<forall>x \<in> set scored. length h1 \<le> x \<and> x < length h2)"
        by simp_all
      from e2 have l2: "length h1 \<le> length h2" by (simp add: extends_def)
      have h': "h' = h2" and res: "res = (case res1 of Inl e \<Rightarrow> Inl e | Inr scored \<Rightarrow> Inr (r' # scored))"
        using Cons.prems Some p Inr al rec by (auto split: sum.splits)
      have "extends h h'" using e1 e2 h' by (auto intro: extends_trans)
      moreover have "\<forall>x \<in> set scored. length h \<le> x \<and> x < length h'" if "res = Inr scored" for scored
      proof (cases res1)
        case (Inl e)
        with res that show ?thesis by simp
      next
        case (Inr scored1)
        with res that have sc: "scored = r' # scored1" by simp
        from fresh Inr have "\<forall>x \<in> set scored1. length h1 \<le> x \<and> x < length h2" by simp
        with l1 l2 r' h' show ?thesis by (auto simp: sc)
      qed
      ultimately show ?thesis by blast
    qed
  qed
qed

lemma sort_in_place_cells:
  "sort_in_place h arr cmp = Inr h' \<Longrightarrow>
     length h' = length h \<and> (\<forall>x. x \<noteq> arr \<longrightarrow> h' ! x = h ! x) \<and>
     (\<exists>refs. get_array h arr = Some refs \<and> (\<exists>refs'. get_array h' arr = Some refs' \<and> set refs' = set refs))"
proof -
  assume a: "sort_in_place h arr cmp = Inr h'"
  then obtain refs vs where refs: "get_array h arr = Some refs" and vs: "scored_all h refs = Some vs"
    and h': "h' = h[arr := Array (map fst (Array_sort (\<lambda>x y. cmp (snd x) (snd y)) (zip refs vs)))]"
    by (auto simp: sort_in_place_def split: option.splits)
  have len: "length vs = length refs"
    using vs by (induction refs arbitrary: vs) (auto split: option.splits)
  have "mset (Array_sort c xs) = mset xs" for c :: "(ref \<times> scored_article) \<Rightarrow> _" and xs
  proof -
    have "mset (insert_by c x ys) = add_mset x (mset ys)" for x ys
      by (induction ys) simp_all
    then show ?thesis by (induction xs) (simp_all add: Array_sort_def)
  qed
  then have "set (Array_sort (\<lambda>x y. cmp (snd x) (snd y)) (zip refs vs)) = set (zip refs vs)"
    by (metis set_mset_mset)
  then have "set (map fst (Array_sort (\<lambda>x y. cmp (snd x) (snd y)) (zip refs vs))) = set refs"
    using len by (simp add: image_def [symmetric] map_fst_zip [symmetric] del: map_fst_zip)
       (metis len map_fst_zip set_map)
  moreover from refs have "arr < length h" by (simp add: get_array_def split: if_splits)
  ultimately show ?thesis using refs by (auto simp: h' get_array_def)
qed

subsection \<open>The search on the heap computes the search on values\<close>

lemma map_filter_Cons_Some:
  "f x = Some y \<Longrightarrow> List.map_filter f (x # xs) = y # List.map_filter f xs"
  by (simp add: List.map_filter_def)

lemma filter_refs_objects:
  assumes "\<forall>r \<in> set refs. get_object h r \<noteq> None"
  shows "\<exists>kept. filter_refs h m refs = Inr kept \<and> set kept \<subseteq> set refs \<and>
           List.map_filter (article_at h) kept =
             filter (\<lambda>a. id' a \<in> set m) (List.map_filter (article_at h) refs)"
  using assms
proof (induction refs)
  case Nil
  then show ?case by (simp add: List.map_filter_def)
next
  case (Cons r refs)
  then obtain a sc where g: "get_object h r = Some (a, sc)" by (cases "get_object h r") auto
  from Cons obtain kept where k: "filter_refs h m refs = Inr kept" "set kept \<subseteq> set refs"
    "List.map_filter (article_at h) kept =
       filter (\<lambda>a. id' a \<in> set m) (List.map_filter (article_at h) refs)" by auto
  have at: "article_at h r = Some a" using g by (simp add: article_at_def)
  show ?case
    using g k at by (auto simp: map_filter_Cons_Some)
qed

lemma scored_at_extends:
  "extends h h' \<Longrightarrow> x < length h \<Longrightarrow> scored_at h' x = scored_at h x"
  by (simp add: scored_at_def get_object_extends)

lemma scored_all_extends:
  "extends h h' \<Longrightarrow> \<forall>x \<in> set rs. x < length h \<Longrightarrow> scored_all h' rs = scored_all h rs"
  by (induction rs) (auto simp: scored_at_extends split: option.splits)

lemma map_filter_article_at_extends:
  "extends h h' \<Longrightarrow> \<forall>x \<in> set rs. x < length h \<Longrightarrow>
     List.map_filter (article_at h') rs = List.map_filter (article_at h) rs"
proof (induction rs)
  case Nil
  then show ?case by simp
next
  case (Cons r rs)
  then have "article_at h' r = article_at h r"
    by (simp add: article_at_def get_object_extends)
  with Cons show ?case by (simp add: List.map_filter_def)
qed

lemma map_scored_refines:
  assumes "\<forall>r \<in> set kept. get_object h r \<noteq> None"
    and "map_scored E h searchTerms kept = (res, h')"
  shows "case res of
           Inl e \<Rightarrow> score_each E (List.map_filter (article_at h) kept) searchTerms = Inl e
         | Inr scored \<Rightarrow>
             \<exists>vs. scored_all h' scored = Some vs \<and>
                  score_each E (List.map_filter (article_at h) kept) searchTerms = Inr vs"
  using assms
proof (induction kept arbitrary: h res h')
  case Nil
  then show ?case by (auto simp: List.map_filter_def)
next
  case (Cons r rs)
  from Cons.prems(1) obtain a sc where g: "get_object h r = Some (a, sc)"
    by (cases "get_object h r") auto
  then have r: "r < length h" by (simp add: get_object_def split: if_splits)
  have rs: "\<forall>x \<in> set rs. x < length h"
    using Cons.prems(1) by (auto simp: get_object_def split: if_splits)
  have at: "article_at h r = Some a" using g by (simp add: article_at_def)
  show ?case
  proof (cases "calculateRelevance E a searchTerms")
    case (Inl e)
    with Cons.prems(2) g have "res = Inl e" by simp
    with Inl show ?thesis by (simp add: at)
  next
    case (Inr n)
    let ?h1 = "h @ [Object a (Some n)]"
    obtain res1 h2 where rec: "map_scored E ?h1 searchTerms rs = (res1, h2)"
      by (cases "map_scored E ?h1 searchTerms rs") auto
    have e1: "extends h ?h1" by (simp add: extends_def)
    have objs: "\<forall>x \<in> set rs. get_object ?h1 x \<noteq> None"
      using Cons.prems(1) rs by (simp add: get_object_extends [OF e1])
    have same: "List.map_filter (article_at ?h1) rs = List.map_filter (article_at h) rs"
      using e1 rs by (rule map_filter_article_at_extends)
    note ih = Cons.IH [OF objs rec]
    from map_scored_extends [OF rec] have e2: "extends ?h1 h2" by simp
    have res: "res = (case res1 of Inl e \<Rightarrow> Inl e | Inr scored \<Rightarrow> Inr (length h # scored))"
      and h': "h' = h2"
      using Cons.prems(2) g Inr rec by (auto simp: alloc_def split: sum.splits)
    show ?thesis
    proof (cases res1)
      case (Inl e)
      with ih res Inr show ?thesis by (simp add: at same)
    next
      case scored: (Inr scored1)
      with ih obtain vs1 where vs1: "scored_all h2 scored1 = Some vs1"
        and se: "score_each E (List.map_filter (article_at h) rs) searchTerms = Inr vs1"
        by (auto simp: same)
      have "scored_at ?h1 (length h) = Some (with_score a n)"
        by (simp add: scored_at_def get_object_def)
      then have "scored_at h2 (length h) = Some (with_score a n)"
        using scored_at_extends [OF e2, of "length h"] by simp
      with vs1 have "scored_all h2 (length h # scored1) = Some (with_score a n # vs1)"
        by simp
      with res scored se Inr h' show ?thesis by (simp add: at)
    qed
  qed
qed

lemma insert_by_snd:
  "map snd (insert_by (\<lambda>x y. cmp (snd x) (snd y)) p ps) = insert_by cmp (snd p) (map snd ps)"
  by (induction ps) simp_all

lemma Array_sort_snd:
  "map snd (Array_sort (\<lambda>x y. cmp (snd x) (snd y)) ps) = Array_sort cmp (map snd ps)"
  by (induction ps) (simp_all add: Array_sort_def insert_by_snd)

lemma set_insert_by: "set (insert_by cmp x ys) = insert x (set ys)"
  by (induction ys) auto

lemma set_Array_sort: "set (Array_sort cmp xs) = set xs"
  by (induction xs) (simp_all add: Array_sort_def set_insert_by)

lemma scored_all_zip:
  "scored_all h rs = Some vs \<Longrightarrow>
     length vs = length rs \<and> (\<forall>p \<in> set (zip rs vs). scored_at h (fst p) = Some (snd p))"
  by (induction rs arbitrary: vs) (auto split: option.splits)

lemma scored_all_pairs:
  "\<forall>p \<in> set ps. scored_at h (fst p) = Some (snd p) \<Longrightarrow>
     scored_all h (map fst ps) = Some (map snd ps)"
  by (induction ps) simp_all

lemma sort_in_place_refines:
  assumes arr: "get_array h arr = Some refs" and vs: "scored_all h refs = Some vs"
  shows "\<exists>h'. sort_in_place h arr cmp = Inr h' \<and>
           result_of h' (Inr arr) = Inr (Array_sort cmp vs)"
proof -
  let ?ps = "Array_sort (\<lambda>x y. cmp (snd x) (snd y)) (zip refs vs)"
  let ?h' = "h[arr := Array (map fst ?ps)]"
  from arr have lt: "arr < length h" and cell: "h ! arr = Array refs"
    by (auto simp: get_array_def split: if_splits cell.splits)
  from scored_all_zip [OF vs] have len: "length vs = length refs"
    and pairs: "\<forall>p \<in> set (zip refs vs). scored_at h (fst p) = Some (snd p)" by simp_all
  have run: "sort_in_place h arr cmp = Inr ?h'"
    using arr vs by (simp add: sort_in_place_def)
  have arr': "get_array ?h' arr = Some (map fst ?ps)"
    using lt by (simp add: get_array_def)
  have not_arr: "x \<noteq> arr" if "scored_at h x = Some v" for x v
    using that cell lt by (auto simp: scored_at_def get_object_def split: if_splits)
  have keep: "scored_at ?h' (fst p) = Some (snd p)" if "p \<in> set ?ps" for p
  proof -
    from that have "p \<in> set (zip refs vs)" by (simp add: set_Array_sort)
    with pairs have at: "scored_at h (fst p) = Some (snd p)" by blast
    from not_arr [OF at] have "get_object ?h' (fst p) = get_object h (fst p)"
      by (simp add: get_object_def)
    with at show ?thesis by (simp add: scored_at_def)
  qed
  then have "scored_all ?h' (map fst ?ps) = Some (map snd ?ps)"
    by (intro scored_all_pairs) blast
  also have "map snd ?ps = Array_sort cmp (map snd (zip refs vs))" by (rule Array_sort_snd)
  also have "map snd (zip refs vs) = vs" using len by simp
  finally have "scored_all ?h' (map fst ?ps) = Some (Array_sort cmp vs)" .
  with arr' have "result_of ?h' (Inr arr) = Inr (Array_sort cmp vs)"
    by (simp add: result_of_def)
  with run show ?thesis by blast
qed

lemma searchArticles_heap_refines:
  assumes wf: "wf_heap he" and run: "searchArticles_heap E he q sortBy = (r, he')"
  shows "result_of (cells he') r = searchArticles E (engine_of he) q sortBy"
proof -
  let ?h = "cells he" and ?s = "engine_of he" and ?terms = "search_terms q"
  from wf obtain refs where refs: "get_array ?h (this_articles he) = Some refs"
    and objs: "\<forall>r \<in> set refs. get_object ?h r \<noteq> None"
    by (auto simp: wf_heap_def list_all_iff split: option.splits)
  have arts: "articles ?s = List.map_filter (article_at ?h) refs"
    by (simp add: engine_of_def refs)
  have ix: "index_keywords ?s = this_keywords he" "index_tags ?s = this_tags he"
    by (simp_all add: engine_of_def)
  show ?thesis
  proof (cases "collect_ids (this_keywords he) (this_tags he) ?terms []")
    case (Inl e)
    with run have "r = Inl e" by (auto simp: searchArticles_heap_def Let_def)
    with Inl show ?thesis
      by (simp add: result_of_def searchArticles_def matched_results_def Let_def ix)
  next
    case ids: (Inr matchedIds)
    from filter_refs_objects [OF objs, of matchedIds] obtain kept where
      flt: "filter_refs ?h matchedIds refs = Inr kept" and sub: "set kept \<subseteq> set refs" and
      kept: "List.map_filter (article_at ?h) kept =
               filter (\<lambda>a. id' a \<in> set matchedIds) (articles ?s)"
      by (auto simp: arts)
    let ?h1 = "?h @ [Array kept]"
    have e1: "extends ?h ?h1" by (simp add: extends_def)
    have lt: "\<forall>x \<in> set kept. x < length ?h"
      using sub objs by (auto simp: get_object_def split: if_splits)
    have objs1: "\<forall>x \<in> set kept. get_object ?h1 x \<noteq> None"
      using sub objs lt by (auto simp: get_object_extends [OF e1])
    have kept1: "List.map_filter (article_at ?h1) kept =
                   filter (\<lambda>a. id' a \<in> set matchedIds) (articles ?s)"
      using map_filter_article_at_extends [OF e1 lt] kept by simp
    obtain res h2 where ms: "map_scored E ?h1 ?terms kept = (res, h2)"
      by (cases "map_scored E ?h1 ?terms kept") auto
    note sc = map_scored_refines [OF objs1 ms]
    have mr: "matched_results E ?s q =
                score_each E (filter (\<lambda>a. id' a \<in> set matchedIds) (articles ?s)) ?terms"
      using ids by (simp add: matched_results_def Let_def ix)
    show ?thesis
    proof (cases res)
      case (Inl e)
      with run ids refs flt ms have "r = Inl e"
        by (auto simp: searchArticles_heap_def Let_def alloc_def)
      moreover from sc Inl have "matched_results E ?s q = Inl e" by (simp add: mr kept1)
      ultimately show ?thesis by (simp add: result_of_def searchArticles_def)
    next
      case scored: (Inr scored)
      with sc obtain vs where vs2: "scored_all h2 scored = Some vs"
        and mres: "matched_results E ?s q = Inr vs" by (auto simp: mr kept1)
      let ?h3 = "h2 @ [Array scored]"
      let ?results = "length h2"
      have e3: "extends h2 ?h3" by (simp add: extends_def)
      from map_scored_extends [OF ms] scored
      have fresh: "\<forall>x \<in> set scored. x < length h2" by simp
      have vs3: "scored_all ?h3 scored = Some vs"
        using scored_all_extends [OF e3 fresh] vs2 by simp
      have arr3: "get_array ?h3 ?results = Some scored" by (simp add: get_array_def)
      have unsorted: "result_of ?h3 (Inr ?results) = Inr vs"
        by (simp add: result_of_def arr3 vs3)
      have step: "(r, he') =
          (case (if sortBy = ''relevance'' then sort_in_place ?h3 ?results by_relevance
                 else if sortBy = ''date'' then sort_in_place ?h3 ?results by_date
                 else Inr ?h3) of
             Inl e \<Rightarrow> (Inl e, he\<lparr>cells := ?h3\<rparr>)
           | Inr h4 \<Rightarrow> (Inr ?results, he\<lparr>cells := h4\<rparr>))"
        using run ids refs flt ms scored
        by (simp add: searchArticles_heap_def Let_def alloc_def)
      show ?thesis
      proof (cases "sortBy = ''relevance''")
        case True
        from sort_in_place_refines [OF arr3 vs3, of by_relevance] obtain h4 where
          "sort_in_place ?h3 ?results by_relevance = Inr h4"
          "result_of h4 (Inr ?results) = Inr (Array_sort by_relevance vs)" by blast
        with step True mres show ?thesis by (simp add: searchArticles_def)
      next
        case nr: False
        show ?thesis
        proof (cases "sortBy = ''date''")
          case True
          from sort_in_place_refines [OF arr3 vs3, of by_date] obtain h4 where
            "sort_in_place ?h3 ?results by_date = Inr h4"
            "result_of h4 (Inr ?results) = Inr (Array_sort by_date vs)" by blast
          with step True nr mres show ?thesis by (simp add: searchArticles_def)
        next
          case False
          with step nr unsorted mres show ?thesis by (simp add: searchArticles_def)
        qed
      qed
    qed
  qed
qed

subsection \<open>The frame of the search\<close>

lemma searchArticles_heap_cases:
  assumes "searchArticles_heap E he q sortBy = (r, he')"
  shows "(he' = he \<and> (\<exists>e. r = Inl e)) \<or>
         (\<exists>matchedIds refs kept filtered h1 res h2.
            collect_ids (this_keywords he) (this_tags he) (search_terms q) [] = Inr matchedIds \<and>
            get_array (cells he) (this_articles he) = Some refs \<and>
            filter_refs (cells he) matchedIds refs = Inr kept \<and>
            alloc (cells he) (Array kept) = (filtered, h1) \<and>
            map_scored E h1 (search_terms q) kept = (res, h2) \<and>
            ((\<exists>e. res = Inl e \<and> r = Inl e \<and> he' = he\<lparr>cells := h2\<rparr>) \<or>
             (\<exists>scored results h3 sorted.
                res = Inr scored \<and> alloc h2 (Array scored) = (results, h3) \<and>
                (if sortBy = ''relevance'' then sort_in_place h3 results by_relevance
                 else if sortBy = ''date'' then sort_in_place h3 results by_date
                 else Inr h3) = sorted \<and>
                ((\<exists>e. sorted = Inl e \<and> r = Inl e \<and> he' = he\<lparr>cells := h3\<rparr>) \<or>
                 (\<exists>h4. sorted = Inr h4 \<and> r = Inr results \<and> he' = he\<lparr>cells := h4\<rparr>)))))"
proof (cases "collect_ids (this_keywords he) (this_tags he) (search_terms q) []")
  case (Inl e)
  with assms show ?thesis by (auto simp: searchArticles_heap_def Let_def)
next
  case ids: (Inr matchedIds)
  show ?thesis
  proof (cases "get_array (cells he) (this_articles he)")
    case None
    with assms ids show ?thesis by (auto simp: searchArticles_heap_def Let_def)
  next
    case arr: (Some refs)
    show ?thesis
    proof (cases "filter_refs (cells he) matchedIds refs")
      case (Inl e)
      with assms ids arr show ?thesis by (auto simp: searchArticles_heap_def Let_def)
    next
      case flt: (Inr kept)
      obtain filtered h1 where al1: "alloc (cells he) (Array kept) = (filtered, h1)"
        by (cases "alloc (cells he) (Array kept)") auto
      obtain res h2 where ms: "map_scored E h1 (search_terms q) kept = (res, h2)"
        by (cases "map_scored E h1 (search_terms q) kept") auto
      show ?thesis
      proof (cases res)
        case (Inl e)
        with assms ids arr flt al1 ms have "r = Inl e \<and> he' = he\<lparr>cells := h2\<rparr>"
          by (simp add: searchArticles_heap_def Let_def)
        with ids arr flt al1 ms Inl show ?thesis by blast
      next
        case sc: (Inr scored)
        obtain results h3 where al2: "alloc h2 (Array scored) = (results, h3)"
          by (cases "alloc h2 (Array scored)") auto
        define sorted where "sorted =
          (if sortBy = ''relevance'' then sort_in_place h3 results by_relevance
           else if sortBy = ''date'' then sort_in_place h3 results by_date
           else Inr h3)"
        have run: "(r, he') = (case sorted of Inl e \<Rightarrow> (Inl e, he\<lparr>cells := h3\<rparr>)
                               | Inr h4 \<Rightarrow> (Inr results, he\<lparr>cells := h4\<rparr>))"
          using assms ids arr flt al1 ms sc al2
          by (simp add: searchArticles_heap_def Let_def sorted_def)
        have "(\<exists>e. sorted = Inl e \<and> r = Inl e \<and> he' = he\<lparr>cells := h3\<rparr>) \<or>
              (\<exists>h4. sorted = Inr h4 \<and> r = Inr results \<and> he' = he\<lparr>cells := h4\<rparr>)"
          using run by (cases sorted) simp_all
        with ids arr flt al1 ms sc al2 sorted_def show ?thesis by blast
      qed
    qed
  qed
qed

text \<open>
  C10. A search changes no root of the engine (the reference \<open>this.articles\<close>, the keyword
  mapping, the tag mapping, the identifier counter, the file) and no cell that was on the
  heap before it: the array of articles and every article object are as before, so an
  article object without a \<open>relevanceScore\<close> property has none afterwards. The array
  that the search returns and the objects in it are new cells.
\<close>

theorem search_changes_no_stored_cell:
  assumes "searchArticles_heap E he q sortBy = (r, he')"
  shows "this_articles he' = this_articles he \<and> this_keywords he' = this_keywords he \<and>
         this_tags he' = this_tags he \<and> this_nextId he' = this_nextId he \<and>
         this_file he' = this_file he \<and>
         length (cells he) \<le> length (cells he') \<and>
         (\<forall>x < length (cells he). cells he' ! x = cells he ! x) \<and>
         (\<forall>x a. get_object (cells he) x = Some (a, None) \<longrightarrow>
                get_object (cells he') x = Some (a, None)) \<and>
         (\<forall>res. r = Inr res \<longrightarrow>
            length (cells he) \<le> res \<and>
            (\<exists>refs. get_array (cells he') res = Some refs \<and>
                    (\<forall>x \<in> set refs. length (cells he) \<le> x)))"
proof -
  let ?h = "cells he"
  have roots: "this_articles he' = this_articles he \<and> this_keywords he' = this_keywords he \<and>
         this_tags he' = this_tags he \<and> this_nextId he' = this_nextId he \<and>
         this_file he' = this_file he"
    using searchArticles_heap_cases [OF assms] by auto
  have main: "extends ?h (cells he') \<and>
         (\<forall>res. r = Inr res \<longrightarrow>
            length ?h \<le> res \<and>
            (\<exists>refs. get_array (cells he') res = Some refs \<and> (\<forall>x \<in> set refs. length ?h \<le> x)))"
    using searchArticles_heap_cases [OF assms]
  proof (elim disjE exE conjE)
    fix e
    assume "he' = he" and "r = Inl e"
    then show ?thesis by (simp add: extends_refl)
  next
    fix matchedIds refs kept filtered h1 res h2 e
    assume al1: "alloc ?h (Array kept) = (filtered, h1)"
      and ms: "map_scored E h1 (search_terms q) kept = (res, h2)"
      and "res = Inl e" "r = Inl e" and he': "he' = he\<lparr>cells := h2\<rparr>"
    from extends_alloc [OF al1] map_scored_extends [OF ms]
    have "extends ?h h2" by (auto intro: extends_trans)
    with \<open>r = Inl e\<close> he' show ?thesis by simp
  next
    fix matchedIds refs kept filtered h1 res h2 scored results h3 sorted e
    assume al1: "alloc ?h (Array kept) = (filtered, h1)"
      and ms: "map_scored E h1 (search_terms q) kept = (res, h2)"
      and al2: "alloc h2 (Array scored) = (results, h3)"
      and "r = Inl e" and he': "he' = he\<lparr>cells := h3\<rparr>"
    from extends_alloc [OF al1] map_scored_extends [OF ms] extends_alloc [OF al2]
    have "extends ?h h3" by (auto intro: extends_trans)
    with \<open>r = Inl e\<close> he' show ?thesis by simp
  next
    fix matchedIds refs kept filtered h1 res h2 scored results h3 sorted h4
    assume al1: "alloc ?h (Array kept) = (filtered, h1)"
      and ms: "map_scored E h1 (search_terms q) kept = (res, h2)"
      and res: "res = Inr scored"
      and al2: "alloc h2 (Array scored) = (results, h3)"
      and srt: "(if sortBy = ''relevance'' then sort_in_place h3 results by_relevance
                 else if sortBy = ''date'' then sort_in_place h3 results by_date
                 else Inr h3) = sorted"
      and sorted: "sorted = Inr h4" and r: "r = Inr results" and he': "he' = he\<lparr>cells := h4\<rparr>"
    from extends_alloc [OF al1] have e1: "extends ?h h1" and l1: "length h1 = Suc (length ?h)"
      by simp_all
    from map_scored_extends [OF ms] res have e2: "extends h1 h2"
      and fresh: "\<forall>x \<in> set scored. length h1 \<le> x \<and> x < length h2" by simp_all
    from extends_alloc [OF al2] have rs: "results = length h2" and e3: "extends h2 h3"
      and l3: "length h3 = Suc (length h2)" by simp_all
    have e13: "extends ?h h3" using e1 e2 e3 by (auto intro: extends_trans)
    have le: "length ?h \<le> results"
      using e1 e2 rs by (simp add: extends_def)
    have "get_array (h2 @ [Array scored]) (length h2) = Some scored"
      by (simp add: get_array_def)
    with al2 have arr3: "get_array h3 results = Some scored"
      by (auto simp: alloc_def)
    have "extends ?h h4 \<and> (\<exists>refs'. get_array h4 results = Some refs' \<and> set refs' = set scored)"
    proof (cases "sortBy = ''relevance'' \<or> sortBy = ''date''")
      case False
      with srt sorted have "h4 = h3" by simp
      with e13 arr3 show ?thesis by simp
    next
      case True
      then obtain cmp where "sort_in_place h3 results cmp = Inr h4"
        using srt sorted by (auto split: if_splits)
      from sort_in_place_cells [OF this] arr3
      have len: "length h4 = length h3" and same: "\<forall>x. x \<noteq> results \<longrightarrow> h4 ! x = h3 ! x"
        and arr4: "\<exists>refs'. get_array h4 results = Some refs' \<and> set refs' = set scored"
        by auto
      have "take (length ?h) h4 = take (length ?h) h3"
      proof (rule nth_equalityI)
        show "length (take (length ?h) h4) = length (take (length ?h) h3)" by (simp add: len)
      next
        fix i assume "i < length (take (length ?h) h4)"
        then have "i < length ?h" "i < length h4" by simp_all
        with le same show "take (length ?h) h4 ! i = take (length ?h) h3 ! i" by simp
      qed
      with e13 len have "extends ?h h4" by (simp add: extends_def)
      with arr4 show ?thesis by simp
    qed
    then obtain refs' where e4: "extends ?h h4" and arr: "get_array h4 results = Some refs'"
      and st: "set refs' = set scored" by blast
    have "\<forall>x \<in> set refs'. length ?h \<le> x" using fresh st l1 by auto
    with e4 arr le r he' show ?thesis by simp
  qed
  from main have ext: "extends ?h (cells he')" by simp
  then have len: "length ?h \<le> length (cells he')" by (simp add: extends_def)
  have nth: "\<forall>x < length ?h. cells he' ! x = ?h ! x"
    using ext by (simp add: extends_nth)
  have obj: "\<forall>x a. get_object ?h x = Some (a, None) \<longrightarrow> get_object (cells he') x = Some (a, None)"
  proof (intro allI impI)
    fix x a assume g: "get_object ?h x = Some (a, None)"
    then have "x < length ?h" by (simp add: get_object_def split: if_splits)
    with ext g show "get_object (cells he') x = Some (a, None)"
      by (simp add: get_object_extends)
  qed
  from roots len nth obj main show ?thesis by blast
qed

theorem search_changes_no_stored_cell_witness:
  "\<forall>E.
     fst (searchArticles_heap E heap_store_2 ''pets training'' ''relevance'') = Inr 6 \<and>
     get_array (cells (snd (searchArticles_heap E heap_store_2 ''pets training''
                              ''relevance''))) 6 = Some [5, 4] \<and>
     this_articles (snd (searchArticles_heap E heap_store_2 ''pets training''
                           ''relevance'')) = 2 \<and>
     get_array (cells (snd (searchArticles_heap E heap_store_2 ''pets training''
                              ''relevance''))) 2 = Some [0, 1] \<and>
     get_object (cells (snd (searchArticles_heap E heap_store_2 ''pets training''
                               ''relevance''))) 0 = Some (cats_article, None) \<and>
     get_object (cells (snd (searchArticles_heap E heap_store_2 ''pets training''
                               ''relevance''))) 5 = Some (dog_article, Some 2)"
  (is "\<forall>E. ?frame E")
proof
  fix E :: regexp_engine
  let ?run = "searchArticles_heap E heap_store_2 ''pets training'' ''relevance''"
  have run: "?run = (fst ?run, snd ?run)" by simp
  note frame = search_changes_no_stored_cell [OF run]
  have r: "fst ?run = Inr 6" by code_simp
  have a6: "get_array (cells (snd ?run)) 6 = Some [5, 4]" by code_simp
  have o5: "get_object (cells (snd ?run)) 5 = Some (dog_article, Some 2)" by code_simp
  have before: "this_articles heap_store_2 = 2" "length (cells heap_store_2) = 3"
    "cells heap_store_2 ! 2 = Array [0, 1]"
    "get_object (cells heap_store_2) 0 = Some (cats_article, None)"
    by (simp_all add: heap_store_2_def get_object_def)
  from frame before have "this_articles (snd ?run) = 2" by simp
  moreover from frame before have "cells (snd ?run) ! 2 = Array [0, 1]"
    and "3 \<le> length (cells (snd ?run))" by simp_all
  then have "get_array (cells (snd ?run)) 2 = Some [0, 1]" by (simp add: get_array_def)
  moreover from frame before have "get_object (cells (snd ?run)) 0 = Some (cats_article, None)"
    by blast
  ultimately show "?frame E" using r a6 o5 by simp
qed

section \<open>When adding and searching return\<close>

lemma push_id_returns:
  assumes "k \<notin> set Object_prototype_names"
  shows "\<exists>obj'. push_id obj k i = Inr obj'"
proof (cases "map_of obj k")
  case None
  with assms have "index_get obj k = Undefined" by (simp add: index_get_def)
  then show ?thesis by (simp add: push_id_def Let_def index_get_def update_conv)
next
  case (Some b)
  then have "index_get obj k = Own b" by (simp add: index_get_def)
  then show ?thesis by (simp add: push_id_def Let_def)
qed

lemma push_ids_returns:
  "\<forall>k \<in> set ks. k \<notin> set Object_prototype_names \<Longrightarrow> \<exists>obj'. push_ids obj ks i = (None, obj')"
proof (induction ks arbitrary: obj)
  case Nil
  then show ?case by simp
next
  case (Cons k ks)
  then obtain obj1 where "push_id obj k i = Inr obj1"
    using push_id_returns [of k obj i] by auto
  with Cons show ?case by simp
qed

lemma addArticle_returns_when:
  assumes "\<forall>k \<in> set (split_ws (toLowerCase (ttl @ '' '' @ cnt))). k \<notin> set Object_prototype_names"
    and "\<forall>g \<in> set (case tgs of None \<Rightarrow> [] | Some ts \<Rightarrow> ts).
           toLowerCase g \<notin> set Object_prototype_names"
  shows "\<exists>s'. addArticle s ttl cnt tgs now w = (Inr (new_article s ttl cnt tgs now), s')"
proof -
  let ?a = "new_article s ttl cnt tgs now"
  let ?s2 = "s\<lparr>nextId := plus_one (ToNumber (nextId s)), articles := articles s @ [?a]\<rparr>"
  have kw: "keywords_of ?a = split_ws (toLowerCase (ttl @ '' '' @ cnt))"
    by (simp add: keywords_of_def new_article_def)
  have tg: "tags ?a = (case tgs of None \<Rightarrow> [] | Some ts \<Rightarrow> ts)"
    by (simp add: new_article_def)
  have "\<forall>k \<in> set (keywords_of ?a). k \<notin> set Object_prototype_names"
    using assms(1) by (simp only: kw)
  from push_ids_returns [OF this] obtain kw' where
    p1: "push_ids (index_keywords ?s2) (keywords_of ?a) (id' ?a) = (None, kw')" by blast
  have "\<forall>k \<in> set (map toLowerCase (tags ?a)). k \<notin> set Object_prototype_names"
    using assms(2) by (simp only: tg) simp
  from push_ids_returns [OF this] obtain tg' where
    p2: "push_ids (index_tags ?s2) (map toLowerCase (tags ?a)) (id' ?a) = (None, tg')" by blast

  from p1 p2 have "indexArticle ?s2 ?a = (None, ?s2\<lparr>index_keywords := kw', index_tags := tg'\<rparr>)"
    by (simp add: indexArticle_def)
  then show ?thesis
    by (simp add: addArticle_def Let_def new_article_def)
qed

lemma collect_ids_returns:
  "\<forall>t \<in> set ts. t \<notin> set Object_prototype_names \<Longrightarrow> \<exists>m. collect_ids kw tg ts st = Inr m"
proof (induction ts arbitrary: st)
  case Nil
  then show ?case by simp
next
  case (Cons t ts)
  then have t: "t \<notin> set Object_prototype_names" by simp
  have "\<exists>b. spread_or_empty (index_get obj t) = Inr b" for obj
    using t by (simp add: spread_or_empty_def index_get_def split: option.splits)
  then obtain b1 b2 where "spread_or_empty (index_get kw t) = Inr b1"
    "spread_or_empty (index_get tg t) = Inr b2" by blast
  with Cons show ?case by simp
qed

lemma calculateRelevance_returns:
  "\<forall>t \<in> set ts. \<exists>re. RegExp E (toLowerCase t) = Inr re \<Longrightarrow>
     \<exists>n. calculateRelevance E a ts = Inr n"
proof -
  assume reads: "\<forall>t \<in> set ts. \<exists>re. RegExp E (toLowerCase t) = Inr re"
  define re_of where
    "re_of t = (case RegExp E (toLowerCase t) of Inr re \<Rightarrow> re | Inl e \<Rightarrow> literal [])" for t
  from reads have "\<forall>t \<in> set ts. RegExp E (toLowerCase t) = Inr (re_of t)"
    by (auto simp: re_of_def)
  from calculateRelevance_sum [OF this] show ?thesis by blast
qed

lemma score_each_returns:
  "\<forall>t \<in> set ts. \<exists>re. RegExp E (toLowerCase t) = Inr re \<Longrightarrow>
     \<exists>rs. score_each E as ts = Inr rs"
proof (induction as)
  case Nil
  then show ?case by simp
next
  case (Cons a as)
  from calculateRelevance_returns [OF Cons.prems, of a] obtain n
    where "calculateRelevance E a ts = Inr n" by blast
  with Cons show ?case by auto
qed

text \<open>
  A search returns when no term of the query is the name of a property of
  \<open>Object.prototype\<close> and the engine accepts every term as a pattern, which it does for a
  term without syntax characters.
\<close>

lemma searchArticles_returns_when:
  assumes "\<forall>t \<in> set (search_terms q). t \<notin> set Object_prototype_names"
    and "\<forall>t \<in> set (search_terms q). \<exists>re. RegExp E (toLowerCase t) = Inr re"
  shows "\<exists>rs. searchArticles E s q sortBy = Inr rs"
proof -
  from collect_ids_returns [OF assms(1)] obtain m where
    "collect_ids (index_keywords s) (index_tags s) (search_terms q) [] = Inr m" by blast
  moreover from score_each_returns [OF assms(2)] obtain rs where
    "score_each E (filter (\<lambda>a. id' a \<in> set m) (articles s)) (search_terms q) = Inr rs" by blast
  ultimately have "matched_results E s q = Inr rs"
    by (simp add: matched_results_def Let_def)
  then show ?thesis by (simp add: searchArticles_def)
qed

text \<open>
  C3. Adding an article whose text holds the word \<open>constructor\<close> does not index it: the
  lookup of this key in the keyword mapping finds the inherited property of
  \<open>Object.prototype\<close>, no bucket is created, and \<open>push\<close> throws. The article is stored
  and the counter is incremented before, so after the operation the store holds an
  article whose token \<open>constructor\<close> and whose later tokens are in no bucket.
\<close>

theorem inherited_key_stops_indexing:
  "fst (addArticle (MiniSearchEngine None) ''Class constructor'' ''How to write one''
          None 1000 True) = Inl TypeError \<and>
   articles (snd (addArticle (MiniSearchEngine None) ''Class constructor''
                    ''How to write one'' None 1000 True)) =
     [\<lparr>id' = Num 1, title = ''Class constructor'', content = ''How to write one'',
        tags = [], createdAt = 1000\<rparr>] \<and>
   nextId (snd (addArticle (MiniSearchEngine None) ''Class constructor''
                  ''How to write one'' None 1000 True)) = Num 2 \<and>
   index_keywords (snd (addArticle (MiniSearchEngine None) ''Class constructor''
                          ''How to write one'' None 1000 True)) = [(''class'', [Num 1])] \<and>
   ''constructor'' \<in> set (split_ws (toLowerCase (''Class constructor'' @ '' '' @
                                                  ''How to write one''))) \<and>
   \<not> in_bucket (index_keywords (snd (addArticle (MiniSearchEngine None) ''Class constructor''
                                       ''How to write one'' None 1000 True)))
        ''constructor'' (Num 1) \<and>
   fst (post_articles (MiniSearchEngine None)
          (Some (Body (Some ''Class constructor'') (Some ''How to write one'') None))
          1000 True) =
     Response 500 (ErrorMessageJson ''Something went wrong!'' TypeError)"
  by code_simp

text \<open>
  C2. A query with the token \<open>constructor\<close> returns no result list: the lookup of this key
  in the keyword mapping finds the inherited property of \<open>Object.prototype\<close>, which is
  not iterable, and the search throws. The article of the scenario that matches the other
  token of the query, \<open>cats\<close>, is not returned.
\<close>

theorem inherited_key_stops_search:
  "searchArticles E store_2 ''cats constructor'' ''relevance'' = Inl TypeError \<and>
   search_terms ''cats constructor'' = [''cats'', ''constructor''] \<and>
   cats_article \<in> set (articles store_2) \<and>
   in_bucket (index_keywords store_2) ''cats'' (id' cats_article) \<and>
   searchArticles E store_2 ''cats'' ''relevance'' = Inr [with_score cats_article 2]"
  by code_simp

end
